theory Spec2Isabelle
  imports Complex_Main
begin

section \<open>Result aggregation of bzt/modules/aggregator.py\<close>

text \<open>
  Numbers: Python's integers are \<open>int\<close>. The times of a sample (response time, latency,
  connect time), their running sums and the averages are floats in the source. A float is
  modelled by its value, a rational (\<open>rat\<close>). The additions that accumulate the three
  running sums of a KPISet round their exact result to a double, as the float addition of
  the source does (\<open>fadd\<close> below). The arithmetic that derives the statistics from the
  sums and the histogram (averages, percentile positions, squared deviations) is exact in
  the model, with \<open>/\<close> the true division; \<open>math.sqrt\<close> is the real square root.
\<close>

subsection \<open>Exceptions\<close>

datatype error =
    ValueError string
  | AssertionError
  | IndexError
  | KeyError

subsection \<open>Dictionaries and Counters\<close>

text \<open>
  A Python dict keeps its keys in insertion order, and the code iterates over dicts, so a
  dict is an association list with distinct keys. \<open>d[k] = v\<close> replaces the value of an
  existing key in place and appends a new key at the end.
\<close>

fun dict_set :: "('k \<times> 'v) list \<Rightarrow> 'k \<Rightarrow> 'v \<Rightarrow> ('k \<times> 'v) list" where
  "dict_set [] k v = [(k, v)]"
| "dict_set ((a, b) # d) k v = (if a = k then (a, v) # d else (a, b) # dict_set d k v)"

text \<open>\<open>d.pop(k)\<close> for a key that is present: the dict without that key.\<close>

definition dict_del :: "('k \<times> 'v) list \<Rightarrow> 'k \<Rightarrow> ('k \<times> 'v) list" where
  "dict_del d k = filter (\<lambda>kv. fst kv \<noteq> k) d"

text \<open>A \<open>collections.Counter\<close>: a dict of integer counts where a missing key reads as 0.\<close>

definition counter_get :: "('k \<times> int) list \<Rightarrow> 'k \<Rightarrow> int" where
  "counter_get c k = (case map_of c k of None \<Rightarrow> 0 | Some n \<Rightarrow> n)"

text \<open>\<open>c[k] = c.get(k, 0) + n\<close>, also \<open>c[k] += n\<close>.\<close>

definition counter_add :: "('k \<times> int) list \<Rightarrow> 'k \<Rightarrow> int \<Rightarrow> ('k \<times> int) list" where
  "counter_add c k n = dict_set c k (counter_get c k + n)"

text \<open>\<open>Counter.update(other)\<close>: adds the counts of \<open>other\<close>, key by key in its order.\<close>

definition counter_update :: "('k \<times> int) list \<Rightarrow> ('k \<times> int) list \<Rightarrow> ('k \<times> int) list" where
  "counter_update c other = fold (\<lambda>kn acc. counter_add acc (fst kn) (snd kn)) other c"

text \<open>\<open>c += other\<close> on Counters: adds the counts and keeps only the positive ones.\<close>

definition counter_iadd :: "('k \<times> int) list \<Rightarrow> ('k \<times> int) list \<Rightarrow> ('k \<times> int) list" where
  "counter_iadd c other = filter (\<lambda>kn. 0 < snd kn) (counter_update c other)"

subsection \<open>Floats\<close>

text \<open>
  A Python float is an IEEE 754 double: a significand of 53 bits, and the exact result of
  an addition is rounded to the nearest double, to the one with the even significand when
  two doubles are equally near. \<open>round_double x\<close> is that double for the rational \<open>x\<close>. The
  magnitude of \<open>x\<close> is written as \<open>q * 2 ^ e\<close> with the integer part of \<open>q\<close> taking 53 bits
  (\<open>norm_down\<close> halves a \<open>q\<close> that is too large, \<open>norm_up\<close> doubles one that is too small), and
  \<open>q\<close> is rounded to an integer. The exponent \<open>e\<close> does not go below -1074, the exponent of
  the smallest subnormal double. An overflow to infinity is not modelled: \<open>round_double\<close>
  has no upper limit.
\<close>

definition round_half_even :: "rat \<Rightarrow> int" where
  "round_half_even q =
     (let f = \<lfloor>q\<rfloor>; d = q - of_int f
      in if d < 1 / 2 then f
         else if 1 / 2 < d then f + 1
         else if even f then f else f + 1)"

function norm_down :: "rat \<Rightarrow> int \<Rightarrow> rat \<times> int" where
  "norm_down q e = (if 2 ^ 53 \<le> q then norm_down (q / 2) (e + 1) else (q, e))"
  by pat_completeness auto
termination
proof (relation "measure (\<lambda>(q, e). nat \<lfloor>q\<rfloor>)")
  show "wf (measure (\<lambda>(q :: rat, e :: int). nat \<lfloor>q\<rfloor>))" by simp
next
  fix q :: rat and e :: int
  assume a: "2 ^ 53 \<le> q"
  have "(2::rat) \<le> 2 ^ 53" by simp
  with a have q2: "2 \<le> q" by linarith
  then have "q / 2 \<le> q - 1" by simp
  then have "\<lfloor>q / 2\<rfloor> \<le> \<lfloor>q - 1\<rfloor>" by (rule floor_mono)
  then have "\<lfloor>q / 2\<rfloor> < \<lfloor>q\<rfloor>" by simp
  moreover from q2 have "0 < \<lfloor>q\<rfloor>" by simp
  ultimately show "((q / 2, e + 1), (q, e)) \<in> measure (\<lambda>(q, e). nat \<lfloor>q\<rfloor>)" by simp
qed

declare norm_down.simps [simp del]

function norm_up :: "rat \<Rightarrow> int \<Rightarrow> rat \<times> int" where
  "norm_up q e = (if q < 2 ^ 52 \<and> - 1074 < e then norm_up (q * 2) (e - 1) else (q, e))"
  by pat_completeness auto
termination
  by (relation "measure (\<lambda>(q, e). nat (e + 1074))") auto

declare norm_up.simps [simp del]

definition two_to :: "int \<Rightarrow> rat" where
  "two_to e = (if 0 \<le> e then 2 ^ nat e else 1 / 2 ^ nat (- e))"

definition round_double :: "rat \<Rightarrow> rat" where
  "round_double x =
     (case norm_down \<bar>x\<bar> 0 of (q1, e1) \<Rightarrow>
      case norm_up q1 e1 of (q, e) \<Rightarrow>
        sgn x * of_int (round_half_even q) * two_to e)"

text \<open>The float addition \<open>a + b\<close>.\<close>

definition fadd :: "rat \<Rightarrow> rat \<Rightarrow> rat" where
  "fadd a b = round_double (a + b)"

subsection \<open>KPISet\<close>

text \<open>An item of the errors list, as built by \<open>KPISet.error_item_skel\<close>.\<close>

record error_item =
  e_cnt :: int
  e_msg :: string
  e_rc :: "string option"
  e_type :: int
  e_urls :: "(string \<times> int) list"

definition ERRTYPE_ERROR :: int where
  "ERRTYPE_ERROR = 0"

definition ERRTYPE_ASSERT :: int where
  "ERRTYPE_ASSERT = 1"

definition error_item_skel ::
  "string \<Rightarrow> string option \<Rightarrow> int \<Rightarrow> int \<Rightarrow> (string \<times> int) list \<Rightarrow> error_item" where
  "error_item_skel err ret_c n errtype url_cnts =
     \<lparr>e_cnt = n, e_msg = err, e_rc = ret_c, e_type = errtype, e_urls = url_cnts\<rparr>"

text \<open>
  The keys of \<open>KPISet._concurrencies\<close>: a thread name (\<open>add_sample\<close>) or a source id
  (\<open>merge_kpis\<close>), which is \<open>None\<close> or the \<open>id()\<close> of a reader.
\<close>

datatype conc_key = TrName string | Sid "nat option"

text \<open>
  The KPISet is a dict with a fixed set of keys plus four attributes; it is a record with
  one field per key (named after the source's key constant) and per attribute. The keys
  of the percentiles dict are \<open>str(float(level))\<close> in the source; the model keeps the
  level itself.
\<close>

record kpiset =
  sum_rt :: rat
  sum_lt :: rat
  sum_cn :: rat
  perc_levels :: "rat list"
  sample_count :: int
  concurrency :: int
  successes :: int
  failures :: int
  avg_resp_time :: rat
  stdev_resp_time :: real
  avg_latency :: rat
  avg_conn_time :: rat
  errors :: "error_item list"
  resp_times :: "(rat \<times> int) list"
  resp_codes :: "(string \<times> int) list"
  percentiles :: "(rat \<times> rat) list"
  concurrencies :: "(conc_key \<times> int) list"

text \<open>\<open>KPISet.__init__\<close>.\<close>

definition KPISet :: "rat list \<Rightarrow> kpiset" where
  "KPISet levels =
     \<lparr>sum_rt = 0, sum_lt = 0, sum_cn = 0, perc_levels = levels,
      sample_count = 0, concurrency = 0, successes = 0, failures = 0,
      avg_resp_time = 0, stdev_resp_time = 0, avg_latency = 0, avg_conn_time = 0,
      errors = [], resp_times = [], resp_codes = [], percentiles = [],
      concurrencies = []\<rparr>"

text \<open>
  \<open>KPISet.__deepcopy__\<close>: a new KPISet with the three sums, the levels and a copy of every
  key; \<open>_concurrencies\<close> is not copied, the copy starts with an empty one.
\<close>

definition deepcopy_kpiset :: "kpiset \<Rightarrow> kpiset" where
  "deepcopy_kpiset self = self\<lparr>concurrencies := []\<rparr>"

text \<open>
  \<open>KPISet.inc_list\<close>. Both call sites pass the selector \<open>('msg', m)\<close>, so the selector
  is the message \<open>m\<close> to match. The loop stops at the first match.
\<close>

fun inc_list :: "error_item list \<Rightarrow> string \<Rightarrow> error_item \<Rightarrow> error_item list" where
  "inc_list [] selector v = [v]"
| "inc_list (item # vals) selector v =
     (if e_msg item = selector
      then item\<lparr>e_cnt := e_cnt item + e_cnt v,
                e_urls := counter_iadd (e_urls item) (e_urls v)\<rparr> # vals
      else item # inc_list vals selector v)"

text \<open>
  A sample as \<open>add_sample\<close> unpacks it:
  \<open>(cnc, r_time, con_time, latency, r_code, error, trname)\<close>. The three times are floats.
\<close>

type_synonym sample =
  "int \<times> rat \<times> rat option \<times> rat \<times> string option \<times> string option \<times> string"

text \<open>\<open>KPISet.add_sample\<close>. \<open>if cnc\<close> and \<open>if con_time\<close> test for a value that is
  neither \<open>None\<close> nor zero. The three \<open>+=\<close> on the sums are float additions.\<close>

definition add_sample :: "kpiset \<Rightarrow> sample \<Rightarrow> kpiset" where
  "add_sample self sample =
     (case sample of (cnc, r_time, con_time, latency, r_code, err, trname) \<Rightarrow>
        let s1 = self\<lparr>sample_count := sample_count self + 1\<rparr>;
            s2 = (if cnc \<noteq> 0
                  then s1\<lparr>concurrencies := dict_set (concurrencies s1) (TrName trname) cnc\<rparr>
                  else s1);
            s3 = (case r_code of
                    None \<Rightarrow> s2
                  | Some code \<Rightarrow>
                      s2\<lparr>resp_codes := counter_add (resp_codes s2) code 1,
                         sum_cn := (case con_time of
                                      None \<Rightarrow> sum_cn s2
                                    | Some c \<Rightarrow>
                                        if c \<noteq> 0 then fadd (sum_cn s2) c else sum_cn s2),
                         sum_lt := fadd (sum_lt s2) latency,
                         sum_rt := fadd (sum_rt s2) r_time\<rparr>);
            s4 = (case err of
                    Some msg \<Rightarrow>
                      s3\<lparr>failures := failures s3 + 1,
                         errors := inc_list (errors s3) msg
                                     (error_item_skel msg r_code 1 ERRTYPE_ERROR [])\<rparr>
                  | None \<Rightarrow> s3\<lparr>successes := successes s3 + 1\<rparr>)
        in s4\<lparr>resp_times := counter_add (resp_times s4) r_time 1\<rparr>)"

subsection \<open>Percentiles and standard deviation\<close>

text \<open>
  The state of the scan in \<open>KPISet.__perc_and_stdev\<close>:
  \<open>(curr_cnts_pos, curr_pos, sqr_diffs)\<close>.
\<close>

type_synonym scan = "nat \<times> int \<times> rat"

text \<open>
  The inner \<open>while curr_pos <= percentile_pos and curr_cnts_pos < len(cnts)\<close> loop. The
  body increments \<open>curr_cnts_pos\<close> and then reads \<open>cnts[curr_cnts_pos]\<close>, which raises
  IndexError when the position has reached the length.
\<close>

function advance :: "(rat \<times> int) list \<Rightarrow> rat \<Rightarrow> rat \<Rightarrow> scan \<Rightarrow> error + scan" where
  "advance cnts avg percentile_pos (curr_cnts_pos, curr_pos, sqr_diffs) =
     (if of_int curr_pos \<le> percentile_pos \<and> curr_cnts_pos < length cnts
      then (let sqr_diffs' = sqr_diffs
                   + of_int (snd (cnts ! curr_cnts_pos)) * (fst (cnts ! curr_cnts_pos) - avg)\<^sup>2;
                curr_cnts_pos' = curr_cnts_pos + 1
            in if curr_cnts_pos' < length cnts
               then advance cnts avg percentile_pos
                      (curr_cnts_pos', curr_pos + snd (cnts ! curr_cnts_pos'), sqr_diffs')
               else Inl IndexError)
      else Inr (curr_cnts_pos, curr_pos, sqr_diffs))"
  by pat_completeness auto
termination
  by (relation "measure (\<lambda>(cnts, avg, ppos, i, cp, sq). length cnts - i)") auto

declare advance.simps [simp del]

text \<open>
  The \<open>for percentile in sorted(percentiles_to_calc)\<close> loop over the sorted levels, with
  the scan state and the list of percentiles built so far. \<open>cnts\<close> is not empty here.
\<close>

fun perc_loop ::
  "(rat \<times> int) list \<Rightarrow> rat \<Rightarrow> int \<Rightarrow> rat list \<Rightarrow> scan \<Rightarrow> (rat \<times> rat) list
     \<Rightarrow> error + (scan \<times> (rat \<times> rat) list)" where
  "perc_loop cnts avg num [] st acc = Inr (st, acc)"
| "perc_loop cnts avg num (percentile # rest) st acc =
     (if percentile < 100
      then (case advance cnts avg (percentile / 100 * of_int num) st of
              Inl e \<Rightarrow> Inl e
            | Inr (curr_cnts_pos, curr_pos, sqr_diffs) \<Rightarrow>
                if curr_cnts_pos < length cnts
                then perc_loop cnts avg num rest (curr_cnts_pos, curr_pos, sqr_diffs)
                       (acc @ [(percentile, fst (cnts ! curr_cnts_pos))])
                else Inl IndexError)
      else perc_loop cnts avg num rest st (acc @ [(percentile, fst (last cnts))]))"

text \<open>The closing \<open>while curr_cnts_pos < len(cnts)\<close> loop.\<close>

function finish :: "(rat \<times> int) list \<Rightarrow> rat \<Rightarrow> nat \<Rightarrow> rat \<Rightarrow> rat" where
  "finish cnts avg curr_cnts_pos sqr_diffs =
     (if curr_cnts_pos < length cnts
      then finish cnts avg (curr_cnts_pos + 1)
             (sqr_diffs
                + of_int (snd (cnts ! curr_cnts_pos)) * (fst (cnts ! curr_cnts_pos) - avg)\<^sup>2)
      else sqr_diffs)"
  by pat_completeness auto
termination
  by (relation "measure (\<lambda>(cnts, avg, i, sq). length cnts - i)") auto

declare finish.simps [simp del]

text \<open>
  \<open>KPISet.__perc_and_stdev\<close>. \<open>sorted(cnts_dict.items())\<close> orders the items by value (the
  keys of a dict are distinct), \<open>sorted(percentiles_to_calc)\<close> orders the levels.
\<close>

definition perc_and_stdev ::
  "(rat \<times> int) list \<Rightarrow> rat list \<Rightarrow> rat \<Rightarrow> error + ((rat \<times> rat) list \<times> real)" where
  "perc_and_stdev cnts_dict percentiles_to_calc avg =
     (if \<not> (\<forall>percentile \<in> set percentiles_to_calc. 0 \<le> percentile \<and> percentile \<le> 100)
      then Inl AssertionError
      else if cnts_dict = [] then Inr ([], 0)
      else
        (let num = sum_list (map snd cnts_dict);
             cnts = sort_key fst cnts_dict
         in case perc_loop cnts avg num (sort percentiles_to_calc)
                   (0, snd (cnts ! 0), 0) [] of
              Inl e \<Rightarrow> Inl e
            | Inr ((curr_cnts_pos, curr_pos, sqr_diffs), percs) \<Rightarrow>
                Inr (percs,
                     sqrt (of_rat (finish cnts avg curr_cnts_pos sqr_diffs
                                     / of_nat (length cnts))))))"

text \<open>
  \<open>KPISet.recalculate\<close>. The result is the exception raised, if any, and the KPISet as
  the call leaves it: the averages and the concurrency are stored before the percentiles
  are computed.
\<close>

definition recalculate :: "kpiset \<Rightarrow> error option \<times> kpiset" where
  "recalculate self =
     (let s1 = (if sample_count self \<noteq> 0
                then self\<lparr>avg_conn_time := sum_cn self / of_int (sample_count self),
                          avg_latency := sum_lt self / of_int (sample_count self),
                          avg_resp_time := sum_rt self / of_int (sample_count self)\<rparr>
                else self);
          s2 = (if concurrencies s1 \<noteq> []
                then s1\<lparr>concurrency := sum_list (map snd (concurrencies s1))\<rparr>
                else s1)
      in case perc_and_stdev (resp_times s2) (perc_levels s2) (avg_resp_time s2) of
           Inl e \<Rightarrow> (Some e, s2)
         | Inr (perc, stdev) \<Rightarrow>
             (None, s2\<lparr>percentiles := fold (\<lambda>lv d. dict_set d (fst lv) (snd lv)) perc
                                         (percentiles s2),
                       stdev_resp_time := stdev\<rparr>))"

text \<open>
  \<open>KPISet.merge_kpis\<close>. It recalculates \<open>src\<close> first, so it changes \<open>src\<close> too: the
  result is the exception raised, if any, then \<open>self\<close> and \<open>src\<close> as the call leaves
  them. An error item of \<open>src\<close> that \<open>self\<close> does not have yet is appended to the list of
  \<open>self\<close> (the source appends the same object; the model appends its value).
\<close>

definition merge_kpis :: "kpiset \<Rightarrow> kpiset \<Rightarrow> nat option \<Rightarrow> error option \<times> kpiset \<times> kpiset" where
  "merge_kpis self src sid =
     (case recalculate src of
        (Some e, src') \<Rightarrow> (Some e, self, src')
      | (None, src') \<Rightarrow>
          (None,
           self\<lparr>sum_cn := fadd (sum_cn self) (sum_cn src'),
                sum_lt := fadd (sum_lt self) (sum_lt src'),
                sum_rt := fadd (sum_rt self) (sum_rt src'),
                sample_count := sample_count self + sample_count src',
                successes := successes self + successes src',
                failures := failures self + failures src',
                concurrencies := dict_set (concurrencies self) (Sid sid) (concurrency src'),
                resp_times := counter_update (resp_times self) (resp_times src'),
                resp_codes := counter_update (resp_codes self) (resp_codes src'),
                errors := fold (\<lambda>src_item acc. inc_list acc (e_msg src_item) src_item)
                            (errors src') (errors self)\<rparr>,
           src'))"

subsection \<open>BetterDict\<close>

text \<open>
  Modelled from the spec: \<open>BetterDict.get(key, default)\<close> of bzt/utils.py, which is not
  among the sources. The spec describes its use as find-or-create (``for every label
  present in incoming, find-or-create the corresponding StatSet in current's map''): the
  value of the key if the dict has it, otherwise the default, which is stored under the
  key. The result is the value and the dict.
\<close>

definition better_get :: "('k \<times> 'v) list \<Rightarrow> 'k \<Rightarrow> 'v \<Rightarrow> 'v \<times> ('k \<times> 'v) list" where
  "better_get d k dflt =
     (case map_of d k of Some v \<Rightarrow> (v, d) | None \<Rightarrow> (dflt, d @ [(k, dflt)]))"

subsection \<open>DataPoint\<close>

text \<open>
  The DataPoint is a dict with the five keys \<open>id\<close>, \<open>ts\<close>, \<open>cumulative\<close>, \<open>current\<close>
  and \<open>subresults\<close>, and the attribute \<open>perc_levels\<close>. The subresults are DataPoints.
\<close>

datatype datapoint =
  DataPoint_dict
    (dp_source_id: "nat option")
    (dp_timestamp: int)
    (dp_cumulative: "(string \<times> kpiset) list")
    (dp_current: "(string \<times> kpiset) list")
    (dp_subresults: "datapoint list")
    (dp_perc_levels: "rat list")

text \<open>\<open>DataPoint.__init__\<close>.\<close>

definition DataPoint :: "int \<Rightarrow> rat list \<Rightarrow> datapoint" where
  "DataPoint ts levels = DataPoint_dict None ts [] [] [] levels"


text \<open>The loop \<open>for val in d.values(): val.recalculate()\<close> of \<open>DataPoint.recalculate\<close>.\<close>

fun recalculate_values ::
  "(string \<times> kpiset) list \<Rightarrow> error option \<times> (string \<times> kpiset) list" where
  "recalculate_values [] = (None, [])"
| "recalculate_values ((label, val) # rest) =
     (case recalculate val of
        (Some e, val') \<Rightarrow> (Some e, (label, val') # rest)
      | (None, val') \<Rightarrow>
          (case recalculate_values rest of (e, rest') \<Rightarrow> (e, (label, val') # rest')))"

text \<open>\<open>DataPoint.recalculate\<close>.\<close>

definition dp_recalculate :: "datapoint \<Rightarrow> error option \<times> datapoint" where
  "dp_recalculate self =
     (case self of DataPoint_dict sid ts cumul cur subs levels \<Rightarrow>
        (case recalculate_values cur of
           (Some e, cur') \<Rightarrow> (Some e, DataPoint_dict sid ts cumul cur' subs levels)
         | (None, cur') \<Rightarrow>
             (case recalculate_values cumul of
                (e, cumul') \<Rightarrow> (e, DataPoint_dict sid ts cumul' cur' subs levels))))"


subsection \<open>ResultsProvider\<close>

text \<open>
  The warnings that the providers log. The debug messages are not modelled, and neither
  are the listeners, which belong to other modules (the list of listeners is empty).
\<close>

datatype log_entry =
    Putting_sample int int
  | Putting_datapoint int int

record results_provider =
  cumulative :: "(string \<times> kpiset) list"
  track_percentiles :: "rat list"
  log :: "log_entry list"

text \<open>
  \<open>ResultsProvider.__merge_to_cumulative\<close>: the loop over the items of \<open>current\<close>, which
  are changed too, since \<open>merge_kpis\<close> recalculates them. The source id is \<open>None\<close>.
\<close>

fun merge_to_cumulative ::
  "rat list \<Rightarrow> (string \<times> kpiset) list \<Rightarrow> (string \<times> kpiset) list
     \<Rightarrow> error option \<times> (string \<times> kpiset) list \<times> (string \<times> kpiset) list" where
  "merge_to_cumulative levels [] cumul = (None, [], cumul)"
| "merge_to_cumulative levels ((label, data) # rest) cumul =
     (case better_get cumul label (KPISet levels) of (cumul_kpi, cumul1) \<Rightarrow>
        (case merge_kpis cumul_kpi data None of
           (Some e, cumul_kpi', data') \<Rightarrow>
             (Some e, (label, data') # rest, dict_set cumul1 label cumul_kpi')
         | (None, cumul_kpi', data') \<Rightarrow>
             (case merge_to_cumulative levels rest (dict_set cumul1 label cumul_kpi') of
                (e, rest', cumul') \<Rightarrow> (e, (label, data') # rest', cumul'))))"

text \<open>
  The body of the \<open>for\<close> loop of \<open>ResultsProvider.datapoints\<close> for one datapoint that
  \<open>_calculate_datapoints\<close> has yielded: the current KPISets go into the cumulative ones of
  the provider, a deep copy of these becomes the cumulative part of the datapoint, and the
  datapoint is recalculated. The result is the exception raised, if any, the datapoint and
  the provider.
\<close>

definition datapoints_body ::
  "'a results_provider_scheme \<Rightarrow> datapoint
     \<Rightarrow> error option \<times> datapoint \<times> 'a results_provider_scheme" where
  "datapoints_body self datapoint =
     (case datapoint of DataPoint_dict sid ts cumul cur subs levels \<Rightarrow>
        (case merge_to_cumulative (track_percentiles self) cur (cumulative self) of
           (Some e, cur', cumul') \<Rightarrow>
             (Some e, DataPoint_dict sid ts cumul cur' subs levels,
              self\<lparr>cumulative := cumul'\<rparr>)
         | (None, cur', cumul') \<Rightarrow>
             (case dp_recalculate
                     (DataPoint_dict sid ts
                        (map (\<lambda>lk. (fst lk, deepcopy_kpiset (snd lk))) cumul')
                        cur' subs levels) of
                (e, datapoint') \<Rightarrow> (e, datapoint', self\<lparr>cumulative := cumul'\<rparr>))))"

subsection \<open>Label generalization\<close>

text \<open>
  The three regular expressions of \<open>ResultsReader.label_generalize_regexps\<close> are built
  from a word boundary \<open>\b\<close>, a literal character and a character class repeated
  \<open>{m,n}\<close> or \<open>{m,}\<close> times. Labels are ASCII strings.
\<close>

datatype char_class = Hex_digit | Dec_digit

datatype re_item = Word_boundary | Literal char | Repeat char_class nat "nat option"

fun in_class :: "char_class \<Rightarrow> char \<Rightarrow> bool" where
  "in_class Hex_digit c = (c \<in> set ''0123456789abcdefABCDEF'')"
| "in_class Dec_digit c = (c \<in> set ''0123456789'')"

text \<open>The word characters \<open>\w\<close>.\<close>

definition is_word :: "char \<Rightarrow> bool" where
  "is_word c =
     (c \<in> set ''abcdefghijklmnopqrstuvwxyzABCDEFGHIJKLMNOPQRSTUVWXYZ0123456789_'')"

text \<open>
  \<open>\b\<close> holds between the character before the position (\<open>None\<close> at the start of the
  string) and the rest of the string when exactly one side is a word character.
\<close>

definition at_boundary :: "char option \<Rightarrow> string \<Rightarrow> bool" where
  "at_boundary prev s =
     ((case prev of None \<Rightarrow> False | Some c \<Rightarrow> is_word c)
        \<noteq> (case s of [] \<Rightarrow> False | c # _ \<Rightarrow> is_word c))"

definition prev_after :: "char option \<Rightarrow> string \<Rightarrow> nat \<Rightarrow> char option" where
  "prev_after prev s k = (if k = 0 then prev else Some (s ! (k - 1)))"

text \<open>
  Matching a pattern at the start of \<open>s\<close>, as the backtracking matcher of \<open>re\<close> does: a
  repetition is greedy and gives characters back one by one until the rest of the pattern
  matches. The result is the rest of the string after the match.
\<close>

function re_match :: "re_item list \<Rightarrow> char option \<Rightarrow> string \<Rightarrow> string option"
  and re_backtrack :: "re_item list \<Rightarrow> char option \<Rightarrow> string \<Rightarrow> nat \<Rightarrow> nat \<Rightarrow> string option"
where
  "re_match [] prev s = Some s"
| "re_match (Word_boundary # items) prev s =
     (if at_boundary prev s then re_match items prev s else None)"
| "re_match (Literal c # items) prev s =
     (case s of
        [] \<Rightarrow> None
      | x # xs \<Rightarrow> if x = c then re_match items (Some x) xs else None)"
| "re_match (Repeat cls lo hi # items) prev s =
     (let n = length (takeWhile (in_class cls) s);
          k = (case hi of None \<Rightarrow> n | Some h \<Rightarrow> min n h)
      in re_backtrack items prev s lo k)"
| "re_backtrack items prev s lo k =
     (if k < lo then None
      else (case re_match items (prev_after prev s k) (drop k s) of
              Some rest \<Rightarrow> Some rest
            | None \<Rightarrow> if k = 0 then None else re_backtrack items prev s lo (k - 1)))"
  by pat_completeness auto
termination
  by (relation "inv_image (less_than <*lex*> less_than)
        (\<lambda>x. case x of
                Inl (items, prev, s) \<Rightarrow> (2 * length items, 0)
              | Inr (items, prev, s, lo, k) \<Rightarrow> (2 * length items + 1, k))")
     auto

text \<open>
  \<open>regexp.sub(replacement, label)\<close>: the matches are found from left to right and do not
  overlap. Each of the three patterns needs at least two characters, so a match is never
  empty; the treatment of empty matches by \<open>re.sub\<close> is not modelled.
\<close>

function re_sub :: "re_item list \<Rightarrow> string \<Rightarrow> char option \<Rightarrow> string \<Rightarrow> string" where
  "re_sub pattern repl prev s =
     (case s of
        [] \<Rightarrow> []
      | x # xs \<Rightarrow>
          (case re_match pattern prev s of
             None \<Rightarrow> x # re_sub pattern repl (Some x) xs
           | Some rest \<Rightarrow>
               if length rest < length s
               then repl @ re_sub pattern repl (Some (s ! (length s - length rest - 1))) rest
               else x # re_sub pattern repl (Some x) xs))"
  by pat_completeness auto
termination
  by (relation "measure (\<lambda>(pattern, repl, prev, s). length s)") auto

declare re_sub.simps [simp del]

text \<open>\<open>ResultsReader.label_generalize_regexps\<close>.\<close>

definition label_generalize_regexps :: "(re_item list \<times> string) list" where
  "label_generalize_regexps =
     [([Word_boundary, Repeat Hex_digit 8 (Some 8), Literal (CHR ''-''),
        Repeat Hex_digit 4 (Some 4), Literal (CHR ''-''),
        Repeat Hex_digit 4 (Some 4), Literal (CHR ''-''),
        Repeat Hex_digit 4 (Some 4), Literal (CHR ''-''),
        Repeat Hex_digit 12 (Some 12), Word_boundary], ''U''),
      ([Word_boundary, Repeat Hex_digit 2 None, Word_boundary], ''U''),
      ([Word_boundary, Repeat Dec_digit 2 None, Word_boundary], ''N'')]"

text \<open>\<open>ResultsReader.__generalize_label\<close>.\<close>

definition generalize_label :: "string \<Rightarrow> string" where
  "generalize_label label =
     fold (\<lambda>rule l. re_sub (fst rule) (snd rule) None l) label_generalize_regexps label"

subsection \<open>ResultsReader\<close>

text \<open>
  A sample in the buffer of the reader:
  \<open>(label, conc, r_time, con_time, latency, r_code, error, trname)\<close>; and a result of
  \<open>_read\<close>, which has the timestamp in front.
\<close>

type_synonym buffered =
  "string \<times> int \<times> rat \<times> rat option \<times> rat \<times> string option \<times> string option \<times> string"

type_synonym result_row =
  "int \<times> string \<times> int \<times> rat \<times> rat option \<times> rat \<times> string option \<times> string option
     \<times> string"

text \<open>
  \<open>_read\<close> is abstract: what it yields during one pull is an input of the model. A result
  is \<open>None\<close>, a tuple of nine fields, or something else (shown by its text).
\<close>

datatype read_result = No_data | Row result_row | Unsupported string

record results_reader = results_provider +
  generalize_labels :: bool
  ignored_labels :: "string list"
  buffer :: "(int \<times> buffered list) list"
  buffer_len :: int
  min_timestamp :: int
  reader_id :: nat

text \<open>\<open>ResultsReader.__init__\<close>; the last argument is \<open>id(self)\<close>.\<close>

definition ResultsReader :: "rat list \<Rightarrow> nat \<Rightarrow> results_reader" where
  "ResultsReader levels ident =
     \<lparr>cumulative = [], track_percentiles = levels, log = [],
      generalize_labels = True, ignored_labels = [], buffer = [], buffer_len = 2,
      min_timestamp = 0, reader_id = ident\<rparr>"

text \<open>
  \<open>if t_stamp not in self.buffer: self.buffer[t_stamp] = []\<close> followed by
  \<open>self.buffer[t_stamp].append(x)\<close>; for a BetterDict also
  \<open>self.buffer.get(tstamp, []).append(x)\<close>.
\<close>

definition buffer_append :: "(int \<times> 'a list) list \<Rightarrow> int \<Rightarrow> 'a \<Rightarrow> (int \<times> 'a list) list" where
  "buffer_append buf t x =
     (case map_of buf t of
        None \<Rightarrow> buf @ [(t, [x])]
      | Some xs \<Rightarrow> dict_set buf t (xs @ [x]))"

text \<open>
  \<open>ResultsReader.__process_readers\<close>, over the results that \<open>_read\<close> yields. \<open>None\<close> ends
  the loop, a sample with an ignored label is skipped, a sample older than
  \<open>min_timestamp\<close> is put into the bucket of \<open>min_timestamp\<close> with a warning.
\<close>

fun process_readers :: "results_reader \<Rightarrow> read_result list \<Rightarrow> error option \<times> results_reader" where
  "process_readers self [] = (None, self)"
| "process_readers self (No_data # rest) = (None, self)"
| "process_readers self (Unsupported r # rest) =
     (Some (ValueError (''Unsupported results from reader: '' @ r)), self)"
| "process_readers self
     (Row (t_stamp, label, conc, r_time, con_time, latency, r_code, err, trname) # rest) =
     (if label \<in> set (ignored_labels self) then process_readers self rest
      else
        (let self1 = (if t_stamp < min_timestamp self
                      then self\<lparr>log := log self @ [Putting_sample t_stamp (min_timestamp self)]\<rparr>
                      else self);
             t_stamp1 = (if t_stamp < min_timestamp self then min_timestamp self else t_stamp)
         in process_readers
              (self1\<lparr>buffer := buffer_append (buffer self1) t_stamp1
                                 (label, conc, r_time, con_time, latency, r_code, err, trname)\<rparr>)
              rest))"

text \<open>
  The first loop of \<open>ResultsReader.__aggreagate_current\<close>: every sample of the bucket goes
  into the KPISet of its label. The fields are passed on by position.
\<close>

fun add_samples ::
  "results_reader \<Rightarrow> (string \<times> kpiset) list \<Rightarrow> buffered list \<Rightarrow> (string \<times> kpiset) list" where
  "add_samples self cur [] = cur"
| "add_samples self cur ((label, s) # samples) =
     (let label1 = (if label = [] then ''[empty]'' else label);
          label2 = (if generalize_labels self then generalize_label label1 else label1)
      in case better_get cur label2 (KPISet (track_percentiles self)) of
           (kpi, cur1) \<Rightarrow> add_samples self (dict_set cur1 label2 (add_sample kpi s)) samples)"

text \<open>
  The second loop, \<open>for label in current.values(): overall.merge_kpis(label, sid)\<close>. The
  result is the exception raised, if any, \<open>overall\<close> and the values as the loop leaves
  them.
\<close>

fun merge_overall ::
  "kpiset \<Rightarrow> (string \<times> kpiset) list \<Rightarrow> nat option
     \<Rightarrow> error option \<times> kpiset \<times> (string \<times> kpiset) list" where
  "merge_overall overall [] sid = (None, overall, [])"
| "merge_overall overall ((label, kpi) # rest) sid =
     (case merge_kpis overall kpi sid of
        (Some e, overall', kpi') \<Rightarrow> (Some e, overall', (label, kpi') # rest)
      | (None, overall', kpi') \<Rightarrow>
          (case merge_overall overall' rest sid of
             (e, overall'', rest') \<Rightarrow> (e, overall'', (label, kpi') # rest')))"

text \<open>\<open>ResultsReader.__aggreagate_current\<close>.\<close>

definition aggregate_current ::
  "results_reader \<Rightarrow> datapoint \<Rightarrow> buffered list \<Rightarrow> error option \<times> datapoint" where
  "aggregate_current self datapoint samples =
     (case datapoint of DataPoint_dict sid ts cumul cur subs levels \<Rightarrow>
        (case merge_overall (KPISet (track_percentiles self))
                (add_samples self cur samples) sid of
           (Some e, overall, cur') \<Rightarrow> (Some e, DataPoint_dict sid ts cumul cur' subs levels)
         | (None, overall, cur') \<Rightarrow>
             (None, DataPoint_dict sid ts cumul (dict_set cur' [] overall) subs levels)))"

text \<open>\<open>ResultsReader.__get_new_datapoint\<close>.\<close>

definition get_new_datapoint :: "results_reader \<Rightarrow> int \<Rightarrow> datapoint" where
  "get_new_datapoint self ts =
     (case DataPoint ts (track_percentiles self) of
        DataPoint_dict sid ts' cumul cur subs levels \<Rightarrow>
          DataPoint_dict (Some (reader_id self)) ts' cumul cur subs levels)"

text \<open>
  The body of the \<open>while\<close> loop of \<open>ResultsReader._calculate_datapoints\<close> up to the
  \<open>yield\<close>, for the timestamp that \<open>timestamps.pop(0)\<close> has returned. The result is the
  exception raised, if any, the datapoint and the reader.
\<close>

definition calculate_datapoint ::
  "results_reader \<Rightarrow> int \<Rightarrow> error option \<times> datapoint \<times> results_reader" where
  "calculate_datapoint self ts =
     (let self1 = self\<lparr>min_timestamp := ts + 1\<rparr>
      in case map_of (buffer self1) ts of
           None \<Rightarrow> (Some KeyError, get_new_datapoint self1 ts, self1)
         | Some samples \<Rightarrow>
             (let self2 = self1\<lparr>buffer := dict_del (buffer self1) ts\<rparr>
              in case aggregate_current self2 (get_new_datapoint self2 ts) samples of
                   (e, datapoint) \<Rightarrow> (e, datapoint, self2)))"

text \<open>
  The \<open>while\<close> loop of \<open>ResultsReader._calculate_datapoints\<close>, run until the generator is
  exhausted, with the sorted timestamps that are left and the datapoints yielded so far.
  The loop is left when no timestamp remains.
\<close>

fun calculate_loop ::
  "bool \<Rightarrow> int list \<Rightarrow> results_reader \<Rightarrow> datapoint list
     \<Rightarrow> error option \<times> datapoint list \<times> results_reader" where
  "calculate_loop final_pass [] self acc = (None, acc, self)"
| "calculate_loop final_pass (ts # timestamps) self acc =
     (if final_pass \<or> last (ts # timestamps) \<ge> ts + buffer_len self
      then (case calculate_datapoint self ts of
              (Some e, datapoint, self1) \<Rightarrow> (Some e, acc, self1)
            | (None, datapoint, self1) \<Rightarrow>
                calculate_loop final_pass timestamps self1 (acc @ [datapoint]))
      else (None, acc, self))"

text \<open>
  \<open>ResultsReader._calculate_datapoints\<close>: the results of \<open>_read\<close> go into the buffer,
  then the buckets that are due are yielded, oldest first. The result is the exception
  raised, if any, the datapoints yielded and the reader.
\<close>

definition calculate_datapoints ::
  "results_reader \<Rightarrow> bool \<Rightarrow> read_result list
     \<Rightarrow> error option \<times> datapoint list \<times> results_reader" where
  "calculate_datapoints self final_pass results =
     (case process_readers self results of
        (Some e, self1) \<Rightarrow> (Some e, [], self1)
      | (None, self1) \<Rightarrow>
          if buffer self1 = [] then (None, [], self1)
          else calculate_loop final_pass (sort (map fst (buffer self1))) self1 [])"

text \<open>
  \<open>ResultsProvider.datapoints\<close> of a reader. The generator \<open>_calculate_datapoints\<close> is
  resumed only after the body of the \<open>for\<close> loop has handled the datapoint yielded
  before, so the two loops are interleaved.
\<close>

fun datapoints_loop ::
  "bool \<Rightarrow> int list \<Rightarrow> results_reader \<Rightarrow> datapoint list
     \<Rightarrow> error option \<times> datapoint list \<times> results_reader" where
  "datapoints_loop final_pass [] self acc = (None, acc, self)"
| "datapoints_loop final_pass (ts # timestamps) self acc =
     (if final_pass \<or> last (ts # timestamps) \<ge> ts + buffer_len self
      then (case calculate_datapoint self ts of
              (Some e, datapoint, self1) \<Rightarrow> (Some e, acc, self1)
            | (None, datapoint, self1) \<Rightarrow>
                (case datapoints_body self1 datapoint of
                   (Some e, datapoint', self2) \<Rightarrow> (Some e, acc, self2)
                 | (None, datapoint', self2) \<Rightarrow>
                     datapoints_loop final_pass timestamps self2 (acc @ [datapoint'])))
      else (None, acc, self))"

definition datapoints ::
  "results_reader \<Rightarrow> bool \<Rightarrow> read_result list
     \<Rightarrow> error option \<times> datapoint list \<times> results_reader" where
  "datapoints self final_pass results =
     (case process_readers self results of
        (Some e, self1) \<Rightarrow> (Some e, [], self1)
      | (None, self1) \<Rightarrow>
          if buffer self1 = [] then (None, [], self1)
          else datapoints_loop final_pass (sort (map fst (buffer self1))) self1 [])"

subsection \<open>ConsolidatingAggregator\<close>









section \<open>Reading a row of a JTL file, bzt/modules/jmeter.py\<close>

text \<open>
  A row of the CSV reader, with the columns that \<open>JTLReader._read\<close> uses. The columns
  that it passes to \<open>int()\<close> hold their integer value; the column \<open>Connect\<close> may be
  missing.
\<close>

record jtl_row =
  row_label :: string
  row_grpThreads :: int
  row_allThreads :: int
  row_threadName :: string
  row_elapsed :: int
  row_Latency :: int
  row_Connect :: "int option"
  row_responseCode :: string
  row_success :: string
  row_responseMessage :: string
  row_timeStamp :: int

text \<open>\<open>s[:s.rfind(' ')]\<close>: \<open>rfind\<close> is -1 when there is no space, and \<open>s[:-1]\<close> drops
  the last character.\<close>

definition up_to_last_space :: "string \<Rightarrow> string" where
  "up_to_last_space s =
     (if CHR '' '' \<in> set s
      then take (length s - 1 - length (takeWhile (\<lambda>c. c \<noteq> CHR '' '') (rev s))) s
      else butlast s)"

text \<open>\<open>s.split('.')[-1]\<close>: what follows the last dot.\<close>

definition after_last_dot :: "string \<Rightarrow> string" where
  "after_last_dot s = rev (takeWhile (\<lambda>c. c \<noteq> CHR ''.'') (rev s))"

text \<open>
  The body of the loop of \<open>JTLReader._read\<close> for one row: the tuple that it yields.
  \<open>int(int(ts) / 1000)\<close> rounds towards zero.
\<close>

definition read_row :: "bool \<Rightarrow> jtl_row \<Rightarrow> result_row" where
  "read_row is_distributed row =
     (let label = row_label row;
          concur = (if is_distributed then row_grpThreads row else row_allThreads row);
          trname = (if is_distributed then up_to_last_space (row_threadName row) else []);
          rtm = rat_of_int (row_elapsed row) / 1000;
          ltc = rat_of_int (row_Latency row) / 1000;
          cnn = (case row_Connect row of
                   Some c \<Rightarrow> Some (rat_of_int c / 1000)
                 | None \<Rightarrow> None);
          ltc1 = (case cnn of
                    Some c \<Rightarrow> if c < ltc then ltc - c else ltc
                  | None \<Rightarrow> ltc);
          rcd = (if drop (length (row_responseCode row) - 9) (row_responseCode row)
                      = ''Exception''
                 then after_last_dot (row_responseCode row)
                 else row_responseCode row);
          err = (if row_success row \<noteq> ''true'' then Some (row_responseMessage row)
                 else None);
          tstmp = (if 0 \<le> row_timeStamp row then row_timeStamp row div 1000
                   else - ((- row_timeStamp row) div 1000))
      in (tstmp, label, concur, rtm, cnn, ltc1, Some rcd, err, trname))"

section \<open>Notions used in the statements\<close>

text \<open>
  The KPISets that can arise from an empty one: by adding a sample, or as either side of a
  merge of two such KPISets, whether the merge ends normally or with an exception.
\<close>

inductive kpiset_reachable :: "kpiset \<Rightarrow> bool" where
  init: "kpiset_reachable (KPISet levels)"
| add: "kpiset_reachable self \<Longrightarrow> kpiset_reachable (add_sample self sample)"
| merge: "kpiset_reachable self \<Longrightarrow> kpiset_reachable src \<Longrightarrow>
          merge_kpis self src sid = (e, self', src') \<Longrightarrow> kpiset_reachable self'"
| merge_src: "kpiset_reachable self \<Longrightarrow> kpiset_reachable src \<Longrightarrow>
          merge_kpis self src sid = (e, self', src') \<Longrightarrow> kpiset_reachable src'"

code_pred kpiset_reachable .

text \<open>The KPISet built from a list of samples, in their order.\<close>

definition from_samples :: "rat list \<Rightarrow> sample list \<Rightarrow> kpiset" where
  "from_samples levels samples = foldl add_sample (KPISet levels) samples"

text \<open>
  The response times that \<open>add_sample\<close> adds to \<open>sum_rt\<close>: those of the samples that have a
  response code, in their order.
\<close>

definition counted_times :: "sample list \<Rightarrow> rat list" where
  "counted_times samples =
     map (\<lambda>s. fst (snd s)) (filter (\<lambda>s. fst (snd (snd (snd (snd s)))) \<noteq> None) samples)"

text \<open>
  The float additions that add the numbers of a list one by one to \<open>acc\<close> are exact: none
  of them rounds its result. \<open>exact_sums\<close> says so of the additions that build the
  \<open>sum_rt\<close> of the KPISet of a list of samples.
\<close>

fun exact_fold :: "rat \<Rightarrow> rat list \<Rightarrow> bool" where
  "exact_fold acc [] = True"
| "exact_fold acc (x # xs) = (fadd acc x = acc + x \<and> exact_fold (acc + x) xs)"

definition exact_sums :: "sample list \<Rightarrow> bool" where
  "exact_sums samples = exact_fold 0 (counted_times samples)"

text \<open>
  A successful sample with the response time \<open>r_time\<close>, and the KPISets of the samples with
  the response times 0.1, then 0.2 and 0.3, then all three; \<open>round_double (1 / 10)\<close> is the
  float 0.1.
\<close>

definition timed_sample :: "rat \<Rightarrow> sample" where
  "timed_sample r_time = (1, r_time, None, 0, Some ''200'', None, ''thread'')"

definition tenth_kpiset :: kpiset where
  "tenth_kpiset = from_samples [] [timed_sample (round_double (1 / 10))]"

definition fifth_and_three_tenths_kpiset :: kpiset where
  "fifth_and_three_tenths_kpiset =
     from_samples [] [timed_sample (round_double (1 / 5)), timed_sample (round_double (3 / 10))]"

definition three_times_kpiset :: kpiset where
  "three_times_kpiset =
     from_samples []
       ([timed_sample (round_double (1 / 10))]
        @ [timed_sample (round_double (1 / 5)), timed_sample (round_double (3 / 10))])"

text \<open>
  The percentile levels that pass the assertion of \<open>__perc_and_stdev\<close>, and the
  histograms whose counts are all positive, as the counts of a Counter filled by
  \<open>add_sample\<close> and \<open>merge_kpis\<close> are. A well-formed KPISet has such levels and such a
  histogram of response times, and the keys of its two Counters are distinct, as the keys
  of a dict are.
\<close>

definition valid_levels :: "rat list \<Rightarrow> bool" where
  "valid_levels levels = (\<forall>percentile \<in> set levels. 0 \<le> percentile \<and> percentile \<le> 100)"

definition positive_counts :: "('k \<times> int) list \<Rightarrow> bool" where
  "positive_counts cnts = (\<forall>kn \<in> set cnts. 0 < snd kn)"

definition wf_kpiset :: "kpiset \<Rightarrow> bool" where
  "wf_kpiset self =
     (valid_levels (perc_levels self) \<and> positive_counts (resp_times self)
      \<and> distinct (map fst (resp_times self)) \<and> distinct (map fst (resp_codes self)))"

text \<open>
  What the scan of \<open>__perc_and_stdev\<close> keeps true between two steps: the position is
  inside the sorted list, \<open>curr_pos\<close> is the sum of the counts up to and including the
  position, and \<open>sqr_diffs\<close> has the terms of the entries before the position.
\<close>

definition sqr_term :: "rat \<Rightarrow> rat \<times> int \<Rightarrow> rat" where
  "sqr_term avg vn = of_int (snd vn) * (fst vn - avg)\<^sup>2"

definition scan_inv :: "(rat \<times> int) list \<Rightarrow> rat \<Rightarrow> scan \<Rightarrow> bool" where
  "scan_inv cnts avg st =
     (case st of (curr_cnts_pos, curr_pos, sqr_diffs) \<Rightarrow>
        curr_cnts_pos < length cnts
        \<and> curr_pos = sum_list (map snd (take (Suc curr_cnts_pos) cnts))
        \<and> sqr_diffs = sum_list (map (sqr_term avg) (take curr_cnts_pos cnts)))"

text \<open>
  The standard deviation as the specification words it: the square root of the sum, over
  the distinct values \<open>v\<close> of the histogram, of \<open>count(v) * (v - mean)^2\<close>, divided by
  the number of distinct values.
\<close>

definition bucket_stdev :: "(rat \<times> int) list \<Rightarrow> rat \<Rightarrow> real" where
  "bucket_stdev cnts mean =
     sqrt (of_rat ((\<Sum>v \<in> fst ` set cnts. of_int (counter_get cnts v) * (v - mean)\<^sup>2)
                     / of_nat (card (fst ` set cnts))))"

text \<open>
  The percentile as the specification words it: the smallest value of the histogram whose
  cumulative frequency, the sum of the counts up to and including that value, reaches or
  exceeds \<open>p / 100\<close> times the total count.
\<close>

definition cumulative_frequency :: "(rat \<times> int) list \<Rightarrow> rat \<Rightarrow> int" where
  "cumulative_frequency cnts v = sum_list (map snd (filter (\<lambda>kn. fst kn \<le> v) cnts))"

definition nearest_rank :: "(rat \<times> int) list \<Rightarrow> rat \<Rightarrow> rat option" where
  "nearest_rank cnts p =
     find (\<lambda>v. p / 100 * of_int (sum_list (map snd cnts))
                  \<le> of_int (cumulative_frequency cnts v))
       (sort (map fst cnts))"



text \<open>The connect time and the latency of a result of \<open>_read\<close>.\<close>

definition result_conn_time :: "result_row \<Rightarrow> rat option" where
  "result_conn_time r = fst (snd (snd (snd (snd r))))"

definition result_latency :: "result_row \<Rightarrow> rat" where
  "result_latency r = fst (snd (snd (snd (snd (snd r)))))"

text \<open>A row with a connect time of 5 ms and a latency of 3 ms.\<close>

definition slow_connect_row :: jtl_row where
  "slow_connect_row =
     \<lparr>row_label = ''home'', row_grpThreads = 1, row_allThreads = 1,
      row_threadName = ''Thread Group 1-1'', row_elapsed = 10, row_Latency = 3,
      row_Connect = Some 5, row_responseCode = ''200'', row_success = ''true'',
      row_responseMessage = ''OK'', row_timeStamp = 1500000000000\<rparr>"

text \<open>
  Dicts of KPISets whose KPISets are all well formed, the sample count that a dict of
  KPISets has for a label (0 when the label is missing), and the datapoints whose levels
  and KPISets are well formed and whose dicts have distinct keys.
\<close>

definition wf_kpis :: "(string \<times> kpiset) list \<Rightarrow> bool" where
  "wf_kpis d = (\<forall>lk \<in> set d. wf_kpiset (snd lk))"






text \<open>
  The concurrency that \<open>merge_kpis\<close> reads from its argument, after it has recalculated the
  argument: the sum of its concurrencies, or the stored concurrency when it has none.
\<close>

definition src_concurrency :: "kpiset \<Rightarrow> int" where
  "src_concurrency k =
     (if concurrencies k = [] then concurrency k else sum_list (map snd (concurrencies k)))"

text \<open>
  \<open>same_data a b\<close>: the KPISet \<open>b\<close> has the data of \<open>a\<close>, that is the counts, the sums,
  the levels, the two histograms, the concurrencies and the messages of the error items,
  in their order. \<open>same_derived a b\<close>: \<open>b\<close> has the derived values of \<open>a\<close>, those that
  only \<open>recalculate\<close> stores. \<open>merged_data sid dest src result\<close>: \<open>result\<close> has the data of
  \<open>dest\<close> with the data of \<open>src\<close> merged into it under the source id \<open>sid\<close>. The counts add
  up, the sums are added as floats, the histograms add up key by key, the messages of
  \<open>dest\<close> keep their places and those that only \<open>src\<close> has are added, and the concurrency
  of \<open>src\<close> is stored under the source id. \<open>merged_kpiset\<close>: \<open>result\<close> is moreover
  recalculated. Of an error item only the message is compared: a merge appends the item
  of \<open>src\<close> itself to the list, so that the lists of several KPISets can hold the same
  item, and what a later increment does to the count of such an item is not a matter of
  one KPISet.
\<close>

definition same_data :: "kpiset \<Rightarrow> kpiset \<Rightarrow> bool" where
  "same_data a b =
     (sample_count b = sample_count a \<and> successes b = successes a \<and> failures b = failures a
      \<and> sum_rt b = sum_rt a \<and> sum_lt b = sum_lt a \<and> sum_cn b = sum_cn a
      \<and> perc_levels b = perc_levels a
      \<and> resp_times b = resp_times a \<and> resp_codes b = resp_codes a
      \<and> concurrencies b = concurrencies a \<and> src_concurrency b = src_concurrency a
      \<and> map e_msg (errors b) = map e_msg (errors a))"


definition merged_data :: "nat option \<Rightarrow> kpiset \<Rightarrow> kpiset \<Rightarrow> kpiset \<Rightarrow> bool" where
  "merged_data sid dest src result =
     (sample_count result = sample_count dest + sample_count src
      \<and> successes result = successes dest + successes src
      \<and> failures result = failures dest + failures src
      \<and> sum_rt result = fadd (sum_rt dest) (sum_rt src)
      \<and> sum_lt result = fadd (sum_lt dest) (sum_lt src)
      \<and> sum_cn result = fadd (sum_cn dest) (sum_cn src)
      \<and> perc_levels result = perc_levels dest
      \<and> fst ` set (resp_times result) = fst ` set (resp_times dest) \<union> fst ` set (resp_times src)
      \<and> (\<forall>v. counter_get (resp_times result) v
                = counter_get (resp_times dest) v + counter_get (resp_times src) v)
      \<and> fst ` set (resp_codes result) = fst ` set (resp_codes dest) \<union> fst ` set (resp_codes src)
      \<and> (\<forall>c. counter_get (resp_codes result) c
                = counter_get (resp_codes dest) c + counter_get (resp_codes src) c)
      \<and> take (length (errors dest)) (map e_msg (errors result)) = map e_msg (errors dest)
      \<and> e_msg ` set (errors result) = e_msg ` set (errors dest) \<union> e_msg ` set (errors src)
      \<and> concurrencies result = dict_set (concurrencies dest) (Sid sid) (src_concurrency src))"






text \<open>
  The reader after the body of the loop of \<open>__process_readers\<close> has put one sample
  with a label that is not ignored into the buffer.
\<close>

definition put_sample :: "results_reader \<Rightarrow> int \<Rightarrow> buffered \<Rightarrow> results_reader" where
  "put_sample self t_stamp x =
     (if t_stamp < min_timestamp self
      then self\<lparr>log := log self @ [Putting_sample t_stamp (min_timestamp self)],
                buffer := buffer_append (buffer self) (min_timestamp self) x\<rparr>
      else self\<lparr>buffer := buffer_append (buffer self) t_stamp x\<rparr>)"

text \<open>
  How \<open>__process_readers\<close> may change a reader: the settings and \<open>min_timestamp\<close>
  stay, every bucket keeps the samples it has and may get more at its end, the buckets
  below \<open>min_timestamp\<close> stay as they are, and the log grows at its end.
\<close>

definition reader_extends :: "results_reader \<Rightarrow> results_reader \<Rightarrow> bool" where
  "reader_extends self self' =
     (track_percentiles self' = track_percentiles self
      \<and> buffer_len self' = buffer_len self
      \<and> min_timestamp self' = min_timestamp self
      \<and> (distinct (map fst (buffer self)) \<longrightarrow> distinct (map fst (buffer self')))
      \<and> (\<forall>t xs. map_of (buffer self) t = Some xs
             \<longrightarrow> (\<exists>ys. map_of (buffer self') t = Some (xs @ ys)))
      \<and> (\<forall>t. t < min_timestamp self \<longrightarrow> map_of (buffer self') t = map_of (buffer self) t)
      \<and> (\<exists>entries. log self' = log self @ entries))"

text \<open>
  A result of \<open>_read\<close> with the timestamp and the label given, a reader whose
  \<open>min_timestamp\<close> has advanced to 8 and that ignores the label \<open>skip\<close>, and the sample
  with the timestamp 5 as the buffer holds it.
\<close>

definition sample_row :: "int \<Rightarrow> string \<Rightarrow> read_result" where
  "sample_row t_stamp label =
     Row (t_stamp, label, 1, 1 / 2, None, 1 / 4, Some ''200'', None, [])"

definition late_reader :: results_reader where
  "late_reader = (ResultsReader [] 1)\<lparr>ignored_labels := [''skip''], min_timestamp := 8\<rparr>"

definition buffered_sample :: "string \<Rightarrow> buffered" where
  "buffered_sample label = (label, 1, 1 / 2, None, 1 / 4, Some ''200'', None, [])"

section \<open>Proofs\<close>

subsection \<open>Dictionaries\<close>

lemma map_of_dict_set: "map_of (dict_set d k v) = (map_of d)(k \<mapsto> v)"
  by (induction d k v rule: dict_set.induct) auto

lemma keys_dict_set: "fst ` set (dict_set d k v) = insert k (fst ` set d)"
  by (induction d k v rule: dict_set.induct) auto

lemma set_dict_set: "set (dict_set d k v) \<subseteq> insert (k, v) (set d)"
  by (induction d k v rule: dict_set.induct) auto

lemma distinct_dict_set: "distinct (map fst d) \<Longrightarrow> distinct (map fst (dict_set d k v))"
proof (induction d k v rule: dict_set.induct)
  case (1 k v)
  then show ?case by simp
next
  case (2 a b d k v)
  then show ?case using keys_dict_set[of d k v] by (auto simp: image_iff)
qed

lemma counter_get_add:
  "counter_get (counter_add c k n) k' = counter_get c k' + (if k = k' then n else 0)"
  by (simp add: counter_add_def counter_get_def map_of_dict_set)

lemma keys_counter_add: "fst ` set (counter_add c k n) = insert k (fst ` set c)"
  by (simp add: counter_add_def keys_dict_set)

lemma positive_counter_add:
  "positive_counts c \<Longrightarrow> 0 < n \<Longrightarrow> positive_counts (counter_add c k n)"
proof -
  assume pc: "positive_counts c" and n: "0 < n"
  have "0 \<le> counter_get c k"
    using pc by (auto simp: counter_get_def positive_counts_def split: option.splits
                      dest!: map_of_SomeD)
  then show ?thesis
    using pc n set_dict_set[of c k "counter_get c k + n"]
    by (auto simp: positive_counts_def counter_add_def)
qed

lemma counter_get_update:
  "counter_get (counter_update c other) k
     = counter_get c k + sum_list (map snd (filter (\<lambda>kn. fst kn = k) other))"
  unfolding counter_update_def
  by (induction other arbitrary: c) (auto simp: counter_get_add)

lemma keys_counter_update:
  "fst ` set (counter_update c other) = fst ` set c \<union> fst ` set other"
  unfolding counter_update_def
  by (induction other arbitrary: c) (auto simp: keys_counter_add)

lemma positive_counter_update:
  "positive_counts c \<Longrightarrow> positive_counts other \<Longrightarrow> positive_counts (counter_update c other)"
proof (induction other arbitrary: c)
  case Nil
  then show ?case by (simp add: counter_update_def)
next
  case (Cons a other)
  from Cons.prems(2) have a: "0 < snd a" and o: "positive_counts other"
    by (simp_all add: positive_counts_def)
  have "positive_counts (counter_add c (fst a) (snd a))"
    using Cons.prems(1) a by (rule positive_counter_add)
  from Cons.IH[OF this o] show ?case by (simp add: counter_update_def)
qed

lemma sum_filter_distinct:
  "distinct (map fst other) \<Longrightarrow>
     sum_list (map snd (filter (\<lambda>kn. fst kn = k) other)) = counter_get other k"
proof (induction other)
  case Nil
  then show ?case by (simp add: counter_get_def)
next
  case (Cons a other)
  show ?case
  proof (cases "fst a = k")
    case True
    with Cons.prems have "filter (\<lambda>kn. fst kn = k) other = []"
      by (auto simp: filter_empty_conv image_iff)
    with True show ?thesis by (cases a) (simp add: counter_get_def)
  next
    case False
    with Cons show ?thesis by (cases a) (simp add: counter_get_def)
  qed
qed

lemma map_of_counter:
  "map_of c k = (if k \<in> fst ` set c then Some (counter_get c k) else None)"
  by (auto simp: counter_get_def map_of_eq_None_iff split: option.splits)

subsection \<open>Counts of a KPISet\<close>

lemma recalculate_counts:
  "recalculate self = (e, self') \<Longrightarrow>
     sample_count self' = sample_count self \<and> successes self' = successes self
     \<and> failures self' = failures self"
  by (auto simp: recalculate_def Let_def split: sum.splits prod.splits if_splits)

lemma add_sample_counts:
  "sample_count (add_sample self s) = sample_count self + 1 \<and>
   successes (add_sample self s) + failures (add_sample self s)
     = successes self + failures self + 1"
  by (cases s) (auto simp: add_sample_def Let_def split: option.splits)

lemma merge_kpis_counts:
  assumes "merge_kpis self src sid = (e, self', src')"
  shows "sample_count src' = sample_count src \<and> successes src' = successes src
     \<and> failures src' = failures src
     \<and> (e = None \<longrightarrow> sample_count self' = sample_count self + sample_count src
            \<and> successes self' = successes self + successes src
            \<and> failures self' = failures self + failures src)
     \<and> (e \<noteq> None \<longrightarrow> self' = self)"
  using assms recalculate_counts[of src]
  by (auto simp: merge_kpis_def split: prod.splits option.splits)

text \<open>
  C1. Every KPISet that arises from an empty one by adding samples and by merging, on
  either side of a merge and whether the merge ends normally or not, has its sample count
  equal to the sum of its successes and its failures.
\<close>

theorem sample_count_invariant:
  "kpiset_reachable self \<Longrightarrow> sample_count self = successes self + failures self"
proof (induction rule: kpiset_reachable.induct)
  case (init levels)
  then show ?case by (simp add: KPISet_def)
next
  case (add self sample)
  then show ?case using add_sample_counts[of self sample] by simp
next
  case (merge self src sid e self' src')
  then show ?case using merge_kpis_counts[OF merge.hyps(3)] by (cases e) auto
next
  case (merge_src self src sid e self' src')
  then show ?case using merge_kpis_counts[OF merge_src.hyps(3)] by auto
qed

theorem sample_count_invariant_witness:
  "kpiset_reachable
     (add_sample (add_sample (KPISet [50]) (1, 1/2, None, 1/4, Some ''200'', None, ''t''))
        (1, 3/2, Some (1/10), 1/4, Some ''500'', Some ''boom'', ''t''))
   \<and> sample_count
       (add_sample (add_sample (KPISet [50]) (1, 1/2, None, 1/4, Some ''200'', None, ''t''))
          (1, 3/2, Some (1/10), 1/4, Some ''500'', Some ''boom'', ''t'')) = 2
   \<and> successes
       (add_sample (add_sample (KPISet [50]) (1, 1/2, None, 1/4, Some ''200'', None, ''t''))
          (1, 3/2, Some (1/10), 1/4, Some ''500'', Some ''boom'', ''t''))
     + failures
       (add_sample (add_sample (KPISet [50]) (1, 1/2, None, 1/4, Some ''200'', None, ''t''))
          (1, 3/2, Some (1/10), 1/4, Some ''500'', Some ''boom'', ''t'')) = 2"
proof -
  let ?k = "add_sample (add_sample (KPISet [50]) (1, 1/2, None, 1/4, Some ''200'', None, ''t''))
          (1, 3/2, Some (1/10), 1/4, Some ''500'', Some ''boom'', ''t'')"
  have r: "kpiset_reachable ?k"
    by (intro kpiset_reachable.add kpiset_reachable.init)
  have c: "sample_count ?k = 2"
    by (simp add: add_sample_def KPISet_def)
  from r c sample_count_invariant[OF r] show ?thesis by simp
qed

subsection \<open>The scan of the histogram\<close>

lemma take_Suc_sum:
  "i < length xs \<Longrightarrow> sum_list (map f (take (Suc i) xs)) = sum_list (map f (take i xs)) + f (xs ! i)"
  by (simp add: take_Suc_conv_app_nth)

lemma advance_total:
  "scan_inv cnts avg st \<Longrightarrow> percentile_pos < of_int (sum_list (map snd cnts)) \<Longrightarrow>
     \<exists>st'. advance cnts avg percentile_pos st = Inr st' \<and> scan_inv cnts avg st'
           \<and> percentile_pos < of_int (fst (snd st'))"
proof (induction cnts avg percentile_pos st rule: advance.induct)
  case (1 cnts avg ppos i cp sq)
  from "1.prems"(1) have i: "i < length cnts"
    and cp: "cp = sum_list (map snd (take (Suc i) cnts))"
    and sq: "sq = sum_list (map (sqr_term avg) (take i cnts))"
    by (simp_all add: scan_inv_def)
  show ?case
  proof (cases "of_int cp \<le> ppos")
    case False
    then show ?thesis
      using "1.prems"(1) by (simp add: advance.simps)
  next
    case True
    have "Suc i < length cnts"
    proof (rule ccontr)
      assume "\<not> Suc i < length cnts"
      with i have "Suc i = length cnts" by simp
      with cp have "cp = sum_list (map snd cnts)" by simp
      with True "1.prems"(2) show False by simp
    qed
    then have lt: "i + 1 < length cnts" by simp
    let ?sq = "sq + of_int (snd (cnts ! i)) * (fst (cnts ! i) - avg)\<^sup>2"
    have inv': "scan_inv cnts avg (i + 1, cp + snd (cnts ! (i + 1)), ?sq)"
      using lt i cp sq take_Suc_sum[of "Suc i" cnts snd] take_Suc_sum[of i cnts "sqr_term avg"]
      by (simp add: scan_inv_def sqr_term_def)
    have "\<exists>st'. advance cnts avg ppos (i + 1, cp + snd (cnts ! (i + 1)), ?sq) = Inr st'
            \<and> scan_inv cnts avg st' \<and> ppos < of_int (fst (snd st'))"
      using "1.IH"[OF _ refl refl lt inv' "1.prems"(2)] True i by simp
    moreover have "advance cnts avg ppos (i, cp, sq)
        = advance cnts avg ppos (i + 1, cp + snd (cnts ! (i + 1)), ?sq)"
      using True i lt by (subst advance.simps) (simp add: Let_def)
    ultimately show ?thesis by simp
  qed
qed

lemma perc_loop_total:
  "scan_inv cnts avg st \<Longrightarrow> 0 < num \<Longrightarrow> num = sum_list (map snd cnts) \<Longrightarrow>
     \<exists>st' percs. perc_loop cnts avg num levels st acc = Inr (st', percs) \<and> scan_inv cnts avg st'"
proof (induction levels arbitrary: st acc)
  case Nil
  then show ?case by simp
next
  case (Cons p levels)
  show ?case
  proof (cases "p < 100")
    case False
    then show ?thesis using Cons.IH[OF Cons.prems] by simp
  next
    case True
    with Cons.prems(2) have "p / 100 * of_int num < of_int num"
      by (simp add: field_simps)
    with Cons.prems(3) have "p / 100 * of_int num < of_int (sum_list (map snd cnts))" by simp
    from advance_total[OF Cons.prems(1) this]
    obtain st1 where a: "advance cnts avg (p / 100 * of_int num) st = Inr st1"
      and inv1: "scan_inv cnts avg st1" by blast
    obtain i1 cp1 sq1 where st1: "st1 = (i1, cp1, sq1)" by (cases st1)
    from inv1 st1 have "i1 < length cnts" by (simp add: scan_inv_def)
    with a st1 True Cons.IH[OF inv1[unfolded st1] Cons.prems(2,3)] show ?thesis
      by simp
  qed
qed

lemma finish_sum:
  "i \<le> length cnts \<Longrightarrow>
     finish cnts avg i sq = sq + sum_list (map (sqr_term avg) (drop i cnts))"
proof (induction cnts avg i sq rule: finish.induct)
  case (1 cnts avg i sq)
  show ?case
  proof (cases "i < length cnts")
    case True
    have "finish cnts avg i sq
        = finish cnts avg (i + 1) (sq + of_int (snd (cnts ! i)) * (fst (cnts ! i) - avg)\<^sup>2)"
      using True by (subst finish.simps) simp
    also have "\<dots> = sq + of_int (snd (cnts ! i)) * (fst (cnts ! i) - avg)\<^sup>2
         + sum_list (map (sqr_term avg) (drop (i + 1) cnts))"
      using "1.IH"[OF True] True by simp
    also have "\<dots> = sq + sum_list (map (sqr_term avg) (drop i cnts))"
      using True Cons_nth_drop_Suc[of i cnts, symmetric]
      by (simp add: sqr_term_def)
    finally show ?thesis .
  next
    case False
    with "1.prems" show ?thesis by (subst finish.simps) simp
  qed
qed

lemma sum_list_insort_key:
  fixes f :: "'a \<Rightarrow> 'b::comm_monoid_add"
  shows "sum_list (map f (insort_key g x xs)) = f x + sum_list (map f xs)"
  by (induction xs) (auto simp: add.left_commute)

lemma sum_list_sort_key:
  fixes f :: "'a \<Rightarrow> 'b::comm_monoid_add"
  shows "sum_list (map f (sort_key g xs)) = sum_list (map f xs)"
  by (induction xs) (auto simp: sum_list_insort_key)

lemma perc_and_stdev_total:
  assumes "valid_levels levels" and "positive_counts cnts_dict" and "cnts_dict \<noteq> []"
  shows "\<exists>percs. perc_and_stdev cnts_dict levels avg =
           Inr (percs, sqrt (of_rat (sum_list (map (sqr_term avg) cnts_dict)
                                       / of_nat (length cnts_dict))))"
proof -
  let ?cnts = "sort_key fst cnts_dict"
  let ?num = "sum_list (map snd cnts_dict)"
  have ne: "?cnts \<noteq> []" using assms(3) by (metis length_sort list.size(3) length_0_conv)
  have pos: "0 < ?num"
    using assms(2,3)
  proof (induction cnts_dict)
    case Nil then show ?case by simp
  next
    case (Cons a xs)
    then show ?case by (cases xs) (auto simp: positive_counts_def intro: add_pos_pos)
  qed
  have num: "?num = sum_list (map snd ?cnts)" by (simp add: sum_list_sort_key)
  have inv0: "scan_inv ?cnts avg (0, snd (?cnts ! 0), 0)"
    using ne by (cases ?cnts) (simp_all add: scan_inv_def)
  from perc_loop_total[OF inv0 pos num, of "sort levels" "[]"]
  obtain st' percs where pl: "perc_loop ?cnts avg ?num (sort levels) (0, snd (?cnts ! 0), 0) []
      = Inr (st', percs)" and inv': "scan_inv ?cnts avg st'" by blast
  obtain i cp sq where st': "st' = (i, cp, sq)" by (cases st')
  from inv' st' have i: "i < length ?cnts"
    and sq: "sq = sum_list (map (sqr_term avg) (take i ?cnts))"
    by (simp_all add: scan_inv_def)
  have "finish ?cnts avg i sq = sum_list (map (sqr_term avg) ?cnts)"
    using finish_sum[of i ?cnts avg sq] i sq
    by (metis append_take_drop_id less_imp_le_nat map_append sum_list.append)
  then have fin: "finish ?cnts avg i sq = sum_list (map (sqr_term avg) cnts_dict)"
    by (simp add: sum_list_sort_key)
  have "\<not> \<not> (\<forall>percentile \<in> set levels. 0 \<le> percentile \<and> percentile \<le> 100)"
    using assms(1) by (simp add: valid_levels_def)
  then show ?thesis
    using assms(3) pl st' fin
    by (simp add: perc_and_stdev_def Let_def)
qed

subsection \<open>Standard deviation and percentiles\<close>

lemma bucket_stdev_list:
  assumes "distinct (map fst cnts)"
  shows "bucket_stdev cnts mean
      = sqrt (of_rat (sum_list (map (sqr_term mean) cnts) / of_nat (length cnts)))"
proof -
  have get: "counter_get cnts (fst vn) = snd vn" if "vn \<in> set cnts" for vn
  proof -
    from that have "(fst vn, snd vn) \<in> set cnts" by simp
    with assms have "map_of cnts (fst vn) = Some (snd vn)" by (rule map_of_is_SomeI)
    then show ?thesis by (simp add: counter_get_def)
  qed
  have "sum_list (map (sqr_term mean) cnts)
      = sum_list (map (\<lambda>v. of_int (counter_get cnts v) * (v - mean)\<^sup>2) (map fst cnts))"
    unfolding map_map by (rule arg_cong[where f=sum_list], rule map_cong)
      (simp_all add: sqr_term_def get)
  also have "\<dots> = (\<Sum>v \<in> set (map fst cnts). of_int (counter_get cnts v) * (v - mean)\<^sup>2)"
    using assms by (rule sum_list_distinct_conv_sum_set)
  finally have s: "sum_list (map (sqr_term mean) cnts)
      = (\<Sum>v \<in> fst ` set cnts. of_int (counter_get cnts v) * (v - mean)\<^sup>2)" by simp
  have "card (fst ` set cnts) = length cnts"
    using assms distinct_card[of "map fst cnts"] by simp
  with s show ?thesis by (simp add: bucket_stdev_def)
qed

lemma recalculate_total:
  assumes "valid_levels (perc_levels self)" and "positive_counts (resp_times self)"
  shows "\<exists>self'. recalculate self = (None, self')
     \<and> stdev_resp_time self' =
         (if resp_times self = [] then 0
          else sqrt (of_rat (sum_list (map (sqr_term (avg_resp_time self')) (resp_times self))
                              / of_nat (length (resp_times self)))))"
proof -
  define s1 where "s1 = (if sample_count self \<noteq> 0
                then self\<lparr>avg_conn_time := sum_cn self / of_int (sample_count self),
                          avg_latency := sum_lt self / of_int (sample_count self),
                          avg_resp_time := sum_rt self / of_int (sample_count self)\<rparr>
                else self)"
  define s2 where "s2 = (if concurrencies s1 \<noteq> []
                then s1\<lparr>concurrency := sum_list (map snd (concurrencies s1))\<rparr>
                else s1)"
  have f: "resp_times s2 = resp_times self" "perc_levels s2 = perc_levels self"
    by (simp_all add: s1_def s2_def)
  have r: "recalculate self =
      (case perc_and_stdev (resp_times s2) (perc_levels s2) (avg_resp_time s2) of
           Inl e \<Rightarrow> (Some e, s2)
         | Inr (perc, stdev) \<Rightarrow>
             (None, s2\<lparr>percentiles := fold (\<lambda>lv d. dict_set d (fst lv) (snd lv)) perc
                                         (percentiles s2),
                       stdev_resp_time := stdev\<rparr>))"
    by (simp only: recalculate_def s1_def s2_def Let_def)
  show ?thesis
  proof (cases "resp_times self = []")
    case True
    have "perc_and_stdev [] (perc_levels self) (avg_resp_time s2) = Inr ([], 0)"
      using assms(1) by (simp add: perc_and_stdev_def valid_levels_def)
    with True f r show ?thesis by simp
  next
    case False
    from perc_and_stdev_total[OF assms False, of "avg_resp_time s2"]
    obtain percs where "perc_and_stdev (resp_times self) (perc_levels self) (avg_resp_time s2)
       = Inr (percs, sqrt (of_rat (sum_list (map (sqr_term (avg_resp_time s2)) (resp_times self))
                                       / of_nat (length (resp_times self)))))" by blast
    with False f r show ?thesis by simp
  qed
qed

text \<open>
  C4. For a histogram with distinct values and positive counts, levels between 0 and 100
  and any mean, \<open>__perc_and_stdev\<close> returns the square root of the sum over the distinct
  values \<open>v\<close> of \<open>count(v) * (v - mean)^2\<close> divided by the number of distinct values, so
  every entry is accumulated exactly once; \<open>recalculate\<close> stores that value, computed
  with the average it has just stored. For an empty histogram the result is the empty
  list of percentiles and the standard deviation 0.
\<close>

theorem stdev_over_buckets:
  assumes "valid_levels levels" and "positive_counts cnts_dict"
    and "distinct (map fst cnts_dict)" and "cnts_dict \<noteq> []"
  shows "perc_and_stdev [] levels avg = Inr ([], 0)
     \<and> (\<exists>percs. perc_and_stdev cnts_dict levels avg
                   = Inr (percs, bucket_stdev cnts_dict avg))
     \<and> (\<exists>self'. recalculate (self\<lparr>resp_times := cnts_dict, perc_levels := levels\<rparr>)
                   = (None, self')
            \<and> stdev_resp_time self' = bucket_stdev cnts_dict (avg_resp_time self'))
     \<and> (\<exists>self'. recalculate (self\<lparr>resp_times := [], perc_levels := levels\<rparr>)
                   = (None, self')
            \<and> stdev_resp_time self' = 0)"
proof (intro conjI)
  show "perc_and_stdev [] levels avg = Inr ([], 0)"
    using assms(1) by (simp add: perc_and_stdev_def valid_levels_def)
next
  from perc_and_stdev_total[OF assms(1,2,4), of avg]
  show "\<exists>percs. perc_and_stdev cnts_dict levels avg = Inr (percs, bucket_stdev cnts_dict avg)"
    by (simp add: bucket_stdev_list[OF assms(3)])
next
  let ?k = "self\<lparr>resp_times := cnts_dict, perc_levels := levels\<rparr>"
  have "valid_levels (perc_levels ?k)" "positive_counts (resp_times ?k)"
    using assms by simp_all
  from recalculate_total[OF this] assms(4)
  show "\<exists>self'. recalculate ?k = (None, self')
            \<and> stdev_resp_time self' = bucket_stdev cnts_dict (avg_resp_time self')"
    by (auto simp: bucket_stdev_list[OF assms(3)])
next
  let ?k = "self\<lparr>resp_times := [], perc_levels := levels\<rparr>"
  have "valid_levels (perc_levels ?k)" "positive_counts (resp_times ?k)"
    using assms by (simp_all add: positive_counts_def)
  from recalculate_total[OF this]
  show "\<exists>self'. recalculate ?k = (None, self') \<and> stdev_resp_time self' = 0"
    by auto
qed

theorem stdev_over_buckets_witness:
  "valid_levels [50, 100] \<and> positive_counts [(1, 2), (3 :: rat, 1 :: int)]
   \<and> distinct (map fst [(1, 2), (3 :: rat, 1 :: int)])
   \<and> [(1, 2), (3 :: rat, 1 :: int)] \<noteq> []
   \<and> (\<exists>percs. perc_and_stdev [(1, 2), (3, 1)] [50, 100] (5 / 3)
                 = Inr (percs, bucket_stdev [(1, 2), (3, 1)] (5 / 3)))
   \<and> (\<exists>self'. recalculate ((KPISet [])\<lparr>resp_times := [(1, 2), (3, 1)],
                                        perc_levels := [50, 100]\<rparr>) = (None, self')
          \<and> stdev_resp_time self' = bucket_stdev [(1, 2), (3, 1)] (avg_resp_time self'))"
proof -
  have h1: "valid_levels [50, 100]" by (simp add: valid_levels_def)
  have h2: "positive_counts [(1, 2), (3 :: rat, 1 :: int)]" by (simp add: positive_counts_def)
  have h3: "distinct (map fst [(1, 2), (3 :: rat, 1 :: int)])" by simp
  have h4: "[(1, 2), (3 :: rat, 1 :: int)] \<noteq> []" by simp
  from stdev_over_buckets[OF h1 h2 h3 h4, of "5 / 3" "KPISet []"] h1 h2 h3 h4
  show ?thesis by blast
qed

lemma sqrt_quarter: "sqrt (real_of_rat (1 / 4)) = 1 / 2"
proof -
  have "real_of_rat (1 / 4) = (1 / 2)\<^sup>2"
    by (simp add: of_rat_divide power2_eq_square)
  then show ?thesis by (simp only: real_sqrt_abs)
qed

text \<open>
  C3. The scan goes on while \<open>curr_pos <= percentile_pos\<close>, so a value whose cumulative
  frequency is exactly \<open>p / 100\<close> times the total is passed over. For the histogram with
  the values 1 and 2, once each, and the level 50, the cumulative frequency of the value 1
  is 1, which is 50 percent of 2: the smallest value whose cumulative frequency reaches
  or exceeds it is 1, and \<open>__perc_and_stdev\<close> returns 2.
\<close>

theorem percentile_at_exact_rank:
  "perc_and_stdev [(1, 1), (2, 1)] [50] (3 / 2) = Inr ([(50, 2)], 1 / 2)
   \<and> nearest_rank [(1, 1), (2, 1)] 50 = Some 1"
proof
  show "perc_and_stdev [(1, 1), (2, 1)] [50] (3 / 2) = Inr ([(50, 2)], 1 / 2)"
    by (simp add: perc_and_stdev_def advance.simps finish.simps Let_def power2_eq_square
        sqrt_quarter)
  show "nearest_rank [(1, 1), (2, 1)] 50 = Some 1"
    by (simp add: nearest_rank_def cumulative_frequency_def)
qed

theorem percentile_at_exact_rank_witness:
  "valid_levels [50] \<and> positive_counts [(1 :: rat, 1 :: int), (2, 1)]
   \<and> perc_and_stdev [(1, 1), (2, 1)] [50] (3 / 2) = Inr ([(50, 2)], 1 / 2)
   \<and> nearest_rank [(1, 1), (2, 1)] 50 = Some 1
   \<and> perc_and_stdev [(1, 1), (2, 1)] [50] (3 / 2) \<noteq> Inr ([(50, 1)], 1 / 2)"
proof -
  have h1: "valid_levels [50]" by (simp add: valid_levels_def)
  have h2: "positive_counts [(1 :: rat, 1 :: int), (2, 1)]" by (simp add: positive_counts_def)
  from percentile_at_exact_rank h1 h2 show ?thesis by simp
qed

subsection \<open>Where the scan stops\<close>












subsection \<open>Merging KPISets\<close>

lemma recalculate_frame:
  "recalculate self = (e, self') \<Longrightarrow>
     sum_rt self' = sum_rt self \<and> sum_lt self' = sum_lt self \<and> sum_cn self' = sum_cn self
     \<and> perc_levels self' = perc_levels self \<and> errors self' = errors self
     \<and> resp_times self' = resp_times self \<and> resp_codes self' = resp_codes self
     \<and> concurrencies self' = concurrencies self"
  by (auto simp: recalculate_def Let_def split: sum.splits prod.splits if_splits)

lemma wf_recalculate:
  "recalculate self = (e, self') \<Longrightarrow> wf_kpiset self \<Longrightarrow> wf_kpiset self'"
  using recalculate_frame[of self e self'] by (simp add: wf_kpiset_def)

lemma recalculate_ok: "wf_kpiset self \<Longrightarrow> \<exists>self'. recalculate self = (None, self')"
  using recalculate_total[of self] by (auto simp: wf_kpiset_def)

lemma wf_KPISet: "valid_levels levels \<Longrightarrow> wf_kpiset (KPISet levels)"
  by (simp add: wf_kpiset_def KPISet_def positive_counts_def)

lemma add_sample_fields:
  "perc_levels (add_sample self s) = perc_levels self"
  "resp_times (add_sample self s) = counter_add (resp_times self) (fst (snd s)) 1"
  "sample_count (add_sample self s) = sample_count self + 1"
  "sum_rt (add_sample self s)
     = (if fst (snd (snd (snd (snd s)))) = None then sum_rt self
        else fadd (sum_rt self) (fst (snd s)))"
  "resp_codes (add_sample self s)
     = (case fst (snd (snd (snd (snd s)))) of
          None \<Rightarrow> resp_codes self
        | Some code \<Rightarrow> counter_add (resp_codes self) code 1)"
  by (cases s; simp add: add_sample_def Let_def split: option.splits)+

lemma distinct_counter_add:
  "distinct (map fst c) \<Longrightarrow> distinct (map fst (counter_add c k n))"
  by (simp add: counter_add_def distinct_dict_set)

lemma distinct_counter_update:
  "distinct (map fst c) \<Longrightarrow> distinct (map fst (counter_update c other))"
  unfolding counter_update_def
  by (induction other arbitrary: c) (simp_all add: distinct_counter_add)

lemma wf_add_sample: "wf_kpiset self \<Longrightarrow> wf_kpiset (add_sample self s)"
  by (simp add: wf_kpiset_def add_sample_fields positive_counter_add distinct_counter_add
      split: option.splits)

lemma from_samples_snoc:
  "from_samples levels (samples @ [s]) = add_sample (from_samples levels samples) s"
  by (simp add: from_samples_def)

lemma wf_from_samples: "valid_levels levels \<Longrightarrow> wf_kpiset (from_samples levels samples)"
  by (induction samples rule: rev_induct)
     (simp_all add: from_samples_snoc wf_add_sample, simp add: from_samples_def wf_KPISet)

lemma distinct_resp_codes_from_samples:
  "distinct (map fst (resp_codes (from_samples levels samples)))"
proof (induction samples rule: rev_induct)
  case Nil
  then show ?case by (simp add: from_samples_def KPISet_def)
next
  case (snoc s samples)
  then show ?case
    by (simp add: from_samples_snoc add_sample_fields distinct_counter_add split: option.splits)
qed

lemma from_samples_append:
  "sample_count (from_samples levels (S1 @ S2))
     = sample_count (from_samples levels S1) + sample_count (from_samples levels' S2)
   \<and> (\<forall>code. counter_get (resp_codes (from_samples levels (S1 @ S2))) code
        = counter_get (resp_codes (from_samples levels S1)) code
          + counter_get (resp_codes (from_samples levels' S2)) code)
   \<and> fst ` set (resp_codes (from_samples levels (S1 @ S2)))
        = fst ` set (resp_codes (from_samples levels S1))
          \<union> fst ` set (resp_codes (from_samples levels' S2))"
proof (induction S2 rule: rev_induct)
  case Nil
  then show ?case by (simp add: from_samples_def KPISet_def counter_get_def)
next
  case (snoc s S2)
  have app: "from_samples levels (S1 @ S2 @ [s]) = add_sample (from_samples levels (S1 @ S2)) s"
    using from_samples_snoc[of levels "S1 @ S2" s] by simp
  show ?case
    unfolding app from_samples_snoc
    using snoc
    by (cases "fst (snd (snd (snd (snd s))))")
       (auto simp: add_sample_fields counter_get_add keys_counter_add)
qed

lemma merge_kpis_ok:
  assumes "wf_kpiset src"
  shows "\<exists>self' src'. merge_kpis self src sid = (None, self', src')
     \<and> sample_count self' = sample_count self + sample_count src
     \<and> sum_rt self' = fadd (sum_rt self) (sum_rt src)
     \<and> resp_codes self' = counter_update (resp_codes self) (resp_codes src)
     \<and> resp_times self' = counter_update (resp_times self) (resp_times src)
     \<and> perc_levels self' = perc_levels self
     \<and> wf_kpiset src'"
proof -
  from recalculate_ok[OF assms] obtain src' where r: "recalculate src = (None, src')" by blast
  from recalculate_frame[OF r] recalculate_counts[OF r] wf_recalculate[OF r assms] r
  show ?thesis by (simp add: merge_kpis_def)
qed

lemma wf_merge_kpis:
  assumes "merge_kpis self src sid = (e, self', src')" and "wf_kpiset self" and "wf_kpiset src"
  shows "wf_kpiset self' \<and> wf_kpiset src'"
proof -
  from merge_kpis_ok[OF assms(3), of self sid] assms(1)
  have "e = None" and f: "resp_times self' = counter_update (resp_times self) (resp_times src)"
    "resp_codes self' = counter_update (resp_codes self) (resp_codes src)"
    "perc_levels self' = perc_levels self" "wf_kpiset src'"
    by auto
  with assms(2,3) show ?thesis
    by (simp add: wf_kpiset_def positive_counter_update distinct_counter_update)
qed

subsection \<open>The running sum of the response times\<close>

lemma floor_rat_numeral_div:
  "\<lfloor>(numeral a / numeral b :: rat)\<rfloor> = numeral a div numeral b"
  using floor_divide_of_int_eq[of "numeral a" "numeral b", where ?'a = rat] by simp

lemma round_double_0: "round_double 0 = 0"
  by (simp add: round_double_def split: prod.splits)

lemma fadd_0: "fadd 0 x = round_double x"
  by (simp add: fadd_def)

lemma sum_rt_from_samples:
  "sum_rt (from_samples levels samples) = foldl fadd 0 (counted_times samples)"
proof (induction samples rule: rev_induct)
  case Nil
  then show ?case by (simp add: from_samples_def KPISet_def counted_times_def)
next
  case (snoc s samples)
  then show ?case
    by (simp add: from_samples_snoc add_sample_fields counted_times_def)
qed

lemma counted_times_append: "counted_times (S1 @ S2) = counted_times S1 @ counted_times S2"
  by (simp add: counted_times_def)

lemma exact_fold_append:
  "exact_fold acc (xs @ ys) = (exact_fold acc xs \<and> exact_fold (acc + sum_list xs) ys)"
  by (induction xs arbitrary: acc) (auto simp: add.assoc)

lemma exact_fold_foldl: "exact_fold acc xs \<Longrightarrow> foldl fadd acc xs = acc + sum_list xs"
  by (induction xs arbitrary: acc) (auto simp: add.assoc)

lemma exact_fold_total:
  "exact_fold acc xs \<Longrightarrow> round_double acc = acc
     \<Longrightarrow> round_double (acc + sum_list xs) = acc + sum_list xs"
proof (induction xs arbitrary: acc)
  case Nil
  then show ?case by simp
next
  case (Cons x xs)
  from Cons.prems(1) have r: "round_double (acc + x) = acc + x" and e: "exact_fold (acc + x) xs"
    by (simp_all add: fadd_def)
  from Cons.IH[OF e r] show ?case by (simp add: add.assoc)
qed

text \<open>
  C2, as stated: the sum of the response times would be the same. For the response times
  0.1 in \<open>S1\<close> and 0.2, 0.3 in \<open>S2\<close> (as floats) the merge adds 0.1 to the sum 0.5 of \<open>S2\<close>
  and gets the float 0.6, while the KPISet built from the three samples adds 0.3 to the
  sum of 0.1 and 0.2, which is the float 0.30000000000000004, and gets the float
  0.6000000000000001.
\<close>

theorem merged_sum_rt_differs:
  "fst (merge_kpis tenth_kpiset fifth_and_three_tenths_kpiset None) = None
   \<and> fst (recalculate (fst (snd (merge_kpis tenth_kpiset fifth_and_three_tenths_kpiset None))))
       = None
   \<and> sum_rt (snd (recalculate
               (fst (snd (merge_kpis tenth_kpiset fifth_and_three_tenths_kpiset None)))))
       = 5404319552844595 / 9007199254740992
   \<and> sum_rt three_times_kpiset = 1351079888211149 / 2251799813685248
   \<and> sum_rt (snd (recalculate
               (fst (snd (merge_kpis tenth_kpiset fifth_and_three_tenths_kpiset None)))))
       \<noteq> sum_rt three_times_kpiset"
proof -
  note ev = round_double_def norm_down.simps norm_up.simps round_half_even_def Let_def
    two_to_def floor_rat_numeral_div
  have a: "round_double (1 / 10) = 3602879701896397 / 36028797018963968"
    by (simp add: ev)
  have b: "round_double (1 / 5) = 3602879701896397 / 18014398509481984"
    by (simp add: ev)
  have c: "round_double (3 / 10) = 5404319552844595 / 18014398509481984"
    by (simp add: ev)
  have a': "round_double (3602879701896397 / 36028797018963968)
      = 3602879701896397 / 36028797018963968"
    by (simp add: ev)
  have b': "round_double (3602879701896397 / 18014398509481984)
      = 3602879701896397 / 18014398509481984"
    by (simp add: ev)
  have bc: "fadd (3602879701896397 / 18014398509481984) (5404319552844595 / 18014398509481984)
      = 1 / 2"
    by (simp add: fadd_def ev)
  have abc: "fadd (3602879701896397 / 36028797018963968) (1 / 2)
      = 5404319552844595 / 9007199254740992"
    by (simp add: fadd_def ev)
  have ab: "fadd (3602879701896397 / 36028797018963968) (3602879701896397 / 18014398509481984)
      = 1351079888211149 / 4503599627370496"
    by (simp add: fadd_def ev)
  have abc': "fadd (1351079888211149 / 4503599627370496) (5404319552844595 / 18014398509481984)
      = 1351079888211149 / 2251799813685248"
    by (simp add: fadd_def ev)
  have sA: "sum_rt tenth_kpiset = 3602879701896397 / 36028797018963968"
    by (simp add: tenth_kpiset_def sum_rt_from_samples counted_times_def timed_sample_def
        fadd_0 a a')
  have sB: "sum_rt fifth_and_three_tenths_kpiset = 1 / 2"
    by (simp add: fifth_and_three_tenths_kpiset_def sum_rt_from_samples counted_times_def
        timed_sample_def fadd_0 b b' c bc)
  have sD: "sum_rt three_times_kpiset = 1351079888211149 / 2251799813685248"
    by (simp add: three_times_kpiset_def sum_rt_from_samples counted_times_def
        timed_sample_def fadd_0 a a' b c ab abc')
  have wfA: "wf_kpiset tenth_kpiset" and wfB: "wf_kpiset fifth_and_three_tenths_kpiset"
    by (simp_all add: tenth_kpiset_def fifth_and_three_tenths_kpiset_def wf_from_samples
        valid_levels_def)
  from merge_kpis_ok[OF wfB, of tenth_kpiset None] obtain merged src' where
    m: "merge_kpis tenth_kpiset fifth_and_three_tenths_kpiset None = (None, merged, src')"
    and s: "sum_rt merged = fadd (sum_rt tenth_kpiset) (sum_rt fifth_and_three_tenths_kpiset)"
    by blast
  from wf_merge_kpis[OF m wfA wfB] have "wf_kpiset merged" by simp
  from recalculate_ok[OF this] obtain recomputed where
    r: "recalculate merged = (None, recomputed)" by blast
  from recalculate_frame[OF r] s have "sum_rt recomputed = 5404319552844595 / 9007199254740992"
    by (simp add: sA sB abc)
  with m r sD show ?thesis by simp
qed

text \<open>
  C2, amended. A KPISet built from the samples \<open>S1\<close>, into which a KPISet built from the
  samples \<open>S2\<close> is merged and which is then recalculated, has the sample count and the
  response codes (as a dict) of the KPISet built from \<open>S1\<close> followed by \<open>S2\<close>; neither the
  merge nor the recalculation raises. Its sum of the response times is the float sum of
  the sums of the two KPISets, where the second sum has been added up from zero; the
  KPISet built from \<open>S1\<close> followed by \<open>S2\<close> adds the response times of \<open>S2\<close> one by one to
  the sum of the first. The two are the same number when the float additions that add up
  \<open>S2\<close> and \<open>S1\<close> followed by \<open>S2\<close> are exact. The levels are within the range that the
  assertion of \<open>__perc_and_stdev\<close> asks for.
\<close>

theorem merge_equals_concatenation_up_to_rounding:
  assumes "valid_levels levels" and "valid_levels levels'"
  shows "\<exists>merged src' recomputed.
     merge_kpis (from_samples levels S1) (from_samples levels' S2) sid = (None, merged, src')
     \<and> recalculate merged = (None, recomputed)
     \<and> sample_count recomputed = sample_count (from_samples levels (S1 @ S2))
     \<and> map_of (resp_codes recomputed) = map_of (resp_codes (from_samples levels (S1 @ S2)))
     \<and> sum_rt recomputed
         = fadd (sum_rt (from_samples levels S1)) (foldl fadd 0 (counted_times S2))
     \<and> sum_rt (from_samples levels (S1 @ S2))
         = foldl fadd (sum_rt (from_samples levels S1)) (counted_times S2)
     \<and> (exact_sums S2 \<and> exact_sums (S1 @ S2)
          \<longrightarrow> sum_rt recomputed = sum_rt (from_samples levels (S1 @ S2)))"
proof -
  let ?A = "from_samples levels S1" and ?B = "from_samples levels' S2"
  let ?D = "from_samples levels (S1 @ S2)"
  have wfA: "wf_kpiset ?A" and wfB: "wf_kpiset ?B"
    using assms by (simp_all add: wf_from_samples)
  from merge_kpis_ok[OF wfB, of ?A sid] obtain merged src' where
    m: "merge_kpis ?A ?B sid = (None, merged, src')"
    and c: "sample_count merged = sample_count ?A + sample_count ?B"
    and s: "sum_rt merged = fadd (sum_rt ?A) (sum_rt ?B)"
    and rc: "resp_codes merged = counter_update (resp_codes ?A) (resp_codes ?B)"
    by blast
  from wf_merge_kpis[OF m wfA wfB] have "wf_kpiset merged" by simp
  from recalculate_ok[OF this] obtain recomputed where
    r: "recalculate merged = (None, recomputed)" by blast
  note fr = recalculate_frame[OF r] recalculate_counts[OF r]
  note ap = from_samples_append[of levels S1 S2 levels']
  have "map_of (resp_codes recomputed) code = map_of (resp_codes ?D) code" for code
    using fr rc ap
    by (simp add: map_of_counter[of _ code] counter_get_update keys_counter_update
        sum_filter_distinct[OF distinct_resp_codes_from_samples])
  then have codes: "map_of (resp_codes recomputed) = map_of (resp_codes ?D)" by (rule ext)
  have cnt: "sample_count recomputed = sample_count ?D"
    using fr c ap by simp
  have sm: "sum_rt recomputed = fadd (sum_rt ?A) (foldl fadd 0 (counted_times S2))"
    using fr s by (simp add: sum_rt_from_samples)
  have sd: "sum_rt ?D = foldl fadd (sum_rt ?A) (counted_times S2)"
    by (simp add: sum_rt_from_samples counted_times_append)
  have ex: "sum_rt recomputed = sum_rt ?D" if e2: "exact_sums S2" and e12: "exact_sums (S1 @ S2)"
  proof -
    from e12 have e1: "exact_fold 0 (counted_times S1)"
      and e2': "exact_fold (sum_list (counted_times S1)) (counted_times S2)"
      by (simp_all add: exact_sums_def counted_times_append exact_fold_append)
    from e2 have e2z: "exact_fold 0 (counted_times S2)" by (simp add: exact_sums_def)
    have a: "sum_rt ?A = sum_list (counted_times S1)"
      using exact_fold_foldl[OF e1] by (simp add: sum_rt_from_samples)
    have b: "foldl fadd 0 (counted_times S2) = sum_list (counted_times S2)"
      using exact_fold_foldl[OF e2z] by simp
    have d: "sum_rt ?D = sum_list (counted_times S1) + sum_list (counted_times S2)"
      using exact_fold_foldl[OF e2'] by (simp add: sd a)
    have r1: "round_double (sum_list (counted_times S1)) = sum_list (counted_times S1)"
      using exact_fold_total[OF e1 round_double_0] by simp
    from exact_fold_total[OF e2' r1] show ?thesis
      by (simp add: sm a b d fadd_def)
  qed
  show ?thesis
    by (rule exI[of _ merged], rule exI[of _ src'], rule exI[of _ recomputed])
       (intro conjI impI m r cnt codes sm sd, erule conjE, rule ex)
qed

theorem merge_equals_concatenation_up_to_rounding_witness:
  "valid_levels [50, 90]
   \<and> exact_sums [(1, 3 / 2, None, 1 / 4, Some ''500'', Some ''boom'', ''t''),
                 (1, 1, None, 1 / 4, Some ''200'', None, ''t'')]
   \<and> exact_sums ([(1, 1 / 2, None, 1 / 4, Some ''200'', None, ''t'')]
                 @ [(1, 3 / 2, None, 1 / 4, Some ''500'', Some ''boom'', ''t''),
                    (1, 1, None, 1 / 4, Some ''200'', None, ''t'')])
   \<and> (\<exists>merged src' recomputed.
        merge_kpis (from_samples [50, 90] [(1, 1 / 2, None, 1 / 4, Some ''200'', None, ''t'')])
          (from_samples [50, 90]
             [(1, 3 / 2, None, 1 / 4, Some ''500'', Some ''boom'', ''t''),
              (1, 1, None, 1 / 4, Some ''200'', None, ''t'')]) None
          = (None, merged, src')
        \<and> recalculate merged = (None, recomputed)
        \<and> sample_count recomputed = 3
        \<and> sum_rt recomputed = 3)"
proof -
  note ev = round_double_def norm_down.simps norm_up.simps round_half_even_def Let_def
    two_to_def floor_rat_numeral_div
  have h: "valid_levels [50, 90]" by (simp add: valid_levels_def)
  have r1: "round_double (1 / 2) = 1 / 2" by (simp add: ev)
  have r2: "round_double 2 = 2" by (simp add: ev)
  have r3: "round_double 3 = 3" by (simp add: ev)
  have r4: "round_double (3 / 2) = 3 / 2" by (simp add: ev)
  have r5: "round_double (5 / 2) = 5 / 2" by (simp add: ev)
  have e2: "exact_sums [(1, 3 / 2, None, 1 / 4, Some ''500'', Some ''boom'', ''t''),
                 (1, 1, None, 1 / 4, Some ''200'', None, ''t'')]"
    by (simp add: exact_sums_def counted_times_def fadd_def r4 r5)
  have e12: "exact_sums ([(1, 1 / 2, None, 1 / 4, Some ''200'', None, ''t'')]
                 @ [(1, 3 / 2, None, 1 / 4, Some ''500'', Some ''boom'', ''t''),
                    (1, 1, None, 1 / 4, Some ''200'', None, ''t'')])"
    by (simp add: exact_sums_def counted_times_def fadd_def r1 r2 r3)
  have c: "sample_count (from_samples [50, 90]
             ([(1, 1 / 2, None, 1 / 4, Some ''200'', None, ''t'')]
              @ [(1, 3 / 2, None, 1 / 4, Some ''500'', Some ''boom'', ''t''),
                 (1, 1, None, 1 / 4, Some ''200'', None, ''t'')])) = 3"
    by (simp add: from_samples_def add_sample_fields KPISet_def)
  have s: "sum_rt (from_samples [50, 90]
             ([(1, 1 / 2, None, 1 / 4, Some ''200'', None, ''t'')]
              @ [(1, 3 / 2, None, 1 / 4, Some ''500'', Some ''boom'', ''t''),
                 (1, 1, None, 1 / 4, Some ''200'', None, ''t'')])) = 3"
    by (simp add: sum_rt_from_samples counted_times_def fadd_def r1 r2 r3)
  from merge_equals_concatenation_up_to_rounding[OF h h,
      of "[(1, 1 / 2, None, 1 / 4, Some ''200'', None, ''t'')]"
         "[(1, 3 / 2, None, 1 / 4, Some ''500'', Some ''boom'', ''t''),
           (1, 1, None, 1 / 4, Some ''200'', None, ''t'')]" None]
  obtain merged src' recomputed where
    "merge_kpis (from_samples [50, 90] [(1, 1 / 2, None, 1 / 4, Some ''200'', None, ''t'')])
          (from_samples [50, 90]
             [(1, 3 / 2, None, 1 / 4, Some ''500'', Some ''boom'', ''t''),
              (1, 1, None, 1 / 4, Some ''200'', None, ''t'')]) None
          = (None, merged, src')"
    "recalculate merged = (None, recomputed)"
    "sample_count recomputed = 3" "sum_rt recomputed = 3"
    unfolding c s using e2 e12 by blast
  with h e2 e12 show ?thesis by blast
qed

subsection \<open>Reading a row\<close>

text \<open>
  C10, as stated: a connect time larger than the latency would be subtracted from the
  latency. For a row with a connect time of 5 ms and a latency of 3 ms the reader yields
  the latency 3 ms, not 3 ms minus 5 ms.
\<close>

theorem connect_larger_than_latency_kept:
  "result_conn_time (read_row False slow_connect_row) = Some (5 / 1000)
   \<and> result_latency (read_row False slow_connect_row) = 3 / 1000
   \<and> (3 / 1000 :: rat) < 5 / 1000
   \<and> result_latency (read_row False slow_connect_row) \<noteq> 3 / 1000 - 5 / 1000"
  by (simp add: read_row_def slow_connect_row_def result_conn_time_def result_latency_def
      Let_def)

text \<open>
  C10, amended: the reader subtracts the connect time from the latency when the connect
  time is present and smaller than the latency; otherwise the latency is the one of the
  row. Every row gives a result: no row is rejected.
\<close>

theorem connect_subtracted_when_smaller:
  "result_conn_time (read_row is_distributed row)
     = (case row_Connect row of None \<Rightarrow> None | Some c \<Rightarrow> Some (rat_of_int c / 1000))
   \<and> result_latency (read_row is_distributed row)
     = (case row_Connect row of
          None \<Rightarrow> rat_of_int (row_Latency row) / 1000
        | Some c \<Rightarrow>
            if c < row_Latency row
            then rat_of_int (row_Latency row) / 1000 - rat_of_int c / 1000
            else rat_of_int (row_Latency row) / 1000)"
  by (simp add: read_row_def result_conn_time_def result_latency_def Let_def
      split: option.splits)

subsection \<open>Label generalization\<close>

text \<open>
  C9. The two labels with a UUID become the same label, \<open>/user/U\<close>. The label
  \<open>/item/42\<close> becomes \<open>/item/U\<close>: the second rule, for two or more hexadecimal digits,
  matches the decimal number before the third rule, which would give \<open>N\<close>, is tried; on
  its own the third rule gives \<open>/item/N\<close>.
\<close>

theorem numeric_run_generalized_as_hex:
  "generalize_label ''/user/3F2504E0-4F89-11D3-9A0C-0305E82C3301'' = ''/user/U''
   \<and> generalize_label ''/user/550E8400-E29B-41D4-A716-446655440000'' = ''/user/U''
   \<and> generalize_label ''/item/42'' = ''/item/U''
   \<and> re_sub (fst (label_generalize_regexps ! 2)) (snd (label_generalize_regexps ! 2))
        None ''/item/42'' = ''/item/N''"
  by code_simp

subsection \<open>Dicts of KPISets\<close>

lemma wf_kpis_dict_set: "wf_kpis d \<Longrightarrow> wf_kpiset v \<Longrightarrow> wf_kpis (dict_set d k v)"
  using set_dict_set[of d k v] by (auto simp: wf_kpis_def)


lemma wf_kpis_Nil: "wf_kpis []"
  by (simp add: wf_kpis_def)




lemma better_get_facts:
  assumes "better_get d k dflt = (v, d1)"
  shows "map_of d1 k = Some v"
    and "\<And>k'. k' \<noteq> k \<Longrightarrow> map_of d1 k' = map_of d k'"
    and "v = (case map_of d k of Some x \<Rightarrow> x | None \<Rightarrow> dflt)"
    and "fst ` set d1 = insert k (fst ` set d)"
    and "set d1 \<subseteq> insert (k, dflt) (set d)"
    and "distinct (map fst d) \<Longrightarrow> distinct (map fst d1)"
proof -
  show "map_of d1 k = Some v"
  proof (cases "map_of d k")
    case None
    with assms show ?thesis by (auto simp: better_get_def map_add_def)
  next
    case (Some x)
    with assms show ?thesis by (auto simp: better_get_def)
  qed
  show "map_of d1 k' = map_of d k'" if "k' \<noteq> k" for k'
  proof (cases "map_of d k")
    case None
    with assms that show ?thesis
      by (auto simp: better_get_def map_add_def split: option.splits)
  next
    case (Some x)
    with assms show ?thesis by (auto simp: better_get_def)
  qed
  show "v = (case map_of d k of Some x \<Rightarrow> x | None \<Rightarrow> dflt)"
    using assms by (cases "map_of d k") (auto simp: better_get_def)
  show "fst ` set d1 = insert k (fst ` set d)"
  proof (cases "map_of d k")
    case None
    with assms show ?thesis by (auto simp: better_get_def)
  next
    case (Some x)
    then have "k \<in> fst ` set d" by (metis map_of_eq_None_iff option.distinct(1))
    with Some assms show ?thesis by (auto simp: better_get_def)
  qed
  show "set d1 \<subseteq> insert (k, dflt) (set d)"
    using assms by (cases "map_of d k") (auto simp: better_get_def)
  show "distinct (map fst d1)" if "distinct (map fst d)"
  proof (cases "map_of d k")
    case None
    then have "k \<notin> fst ` set d" by (simp add: map_of_eq_None_iff)
    with None assms that show ?thesis by (auto simp: better_get_def)
  next
    case (Some x)
    with assms that show ?thesis by (auto simp: better_get_def)
  qed
qed

lemma better_get_wf:
  assumes "better_get d k dflt = (v, d1)" and "wf_kpis d" and "wf_kpiset dflt"
  shows "wf_kpis d1 \<and> wf_kpiset v"
proof -
  from better_get_facts(5)[OF assms(1)] assms(2,3) have w: "wf_kpis d1"
    by (auto simp: wf_kpis_def)
  from better_get_facts(1)[OF assms(1)] have "(k, v) \<in> set d1" by (rule map_of_SomeD)
  with w show ?thesis by (auto simp: wf_kpis_def)
qed





subsection \<open>Exceptions of the recalculation\<close>











subsection \<open>What a merge yields\<close>





lemma same_data_refl: "same_data a a"
  by (simp add: same_data_def)

lemma same_data_trans: "same_data a b \<Longrightarrow> same_data b c \<Longrightarrow> same_data a c"
  by (simp add: same_data_def)

lemma same_data_msgs: "same_data a b \<Longrightarrow> e_msg ` set (errors b) = e_msg ` set (errors a)"
proof -
  assume "same_data a b"
  then have "map e_msg (errors b) = map e_msg (errors a)" by (simp add: same_data_def)
  then have "set (map e_msg (errors b)) = set (map e_msg (errors a))" by simp
  then show ?thesis by simp
qed


lemma merged_data_src:
  assumes "merged_data sid dest src m" and "same_data src src2"
  shows "merged_data sid dest src2 m"
proof -
  from assms(2) have eqs: "sample_count src2 = sample_count src" "successes src2 = successes src"
    "failures src2 = failures src" "sum_rt src2 = sum_rt src" "sum_lt src2 = sum_lt src"
    "sum_cn src2 = sum_cn src" "resp_times src2 = resp_times src"
    "resp_codes src2 = resp_codes src" "src_concurrency src2 = src_concurrency src"
    by (simp_all add: same_data_def)
  note img = same_data_msgs[OF assms(2)]
  from assms(1) show ?thesis
    unfolding merged_data_def eqs img .
qed






lemma map_of_recalculated:
  "map_of (map (\<lambda>lk. (fst lk, f (snd lk))) d) l = map_option f (map_of d l)"
  by (induction d) auto


subsection \<open>Merging datapoints\<close>









subsection \<open>The consolidator\<close>











subsection \<open>The reader\<close>

lemma wf_add_samples:
  "wf_kpis cur \<Longrightarrow> valid_levels (track_percentiles self)
     \<Longrightarrow> wf_kpis (add_samples self cur samples)"
proof (induction samples arbitrary: cur)
  case Nil
  then show ?case by simp
next
  case (Cons a samples)
  obtain label s where a: "a = (label, s)" by (cases a)
  let ?label1 = "if label = [] then ''[empty]'' else label"
  let ?label2 = "if generalize_labels self then generalize_label ?label1 else ?label1"
  obtain kpi cur1 where bg: "better_get cur ?label2 (KPISet (track_percentiles self)) = (kpi, cur1)"
    by (cases "better_get cur ?label2 (KPISet (track_percentiles self))")
  from better_get_wf[OF bg Cons.prems(1) wf_KPISet[OF Cons.prems(2)]]
  have "wf_kpis cur1" "wf_kpiset kpi" by simp_all
  then have "wf_kpis (dict_set cur1 ?label2 (add_sample kpi s))"
    by (simp add: wf_kpis_dict_set wf_add_sample)
  from Cons.IH[OF this Cons.prems(2)] a bg show ?case
    by (simp add: Let_def)
qed

lemma merge_overall_ok:
  "wf_kpis d \<Longrightarrow> \<exists>overall' d'. merge_overall overall d sid = (None, overall', d')"
proof (induction d arbitrary: overall)
  case Nil
  then show ?case by simp
next
  case (Cons a d)
  obtain label kpi where a: "a = (label, kpi)" by (cases a)
  from Cons.prems a have wk: "wf_kpiset kpi" and wd: "wf_kpis d"
    by (auto simp: wf_kpis_def)
  from merge_kpis_ok[OF wk, of overall sid] obtain overall1 kpi' where
    m: "merge_kpis overall kpi sid = (None, overall1, kpi')"
    by (elim exE conjE) (rule that)
  from Cons.IH[OF wd, of overall1] obtain overall2 d' where
    r: "merge_overall overall1 d sid = (None, overall2, d')"
    by (elim exE conjE) (rule that)
  from a m r show ?case by simp
qed

lemma calculate_datapoint_ok:
  assumes "map_of (buffer self) ts = Some samples"
    and "valid_levels (track_percentiles self)"
  shows "\<exists>datapoint. calculate_datapoint self ts
       = (None, datapoint, self\<lparr>min_timestamp := ts + 1, buffer := dict_del (buffer self) ts\<rparr>)
     \<and> dp_timestamp datapoint = ts"
proof -
  let ?self2 = "self\<lparr>min_timestamp := ts + 1, buffer := dict_del (buffer self) ts\<rparr>"
  have nd: "get_new_datapoint ?self2 ts
      = DataPoint_dict (Some (reader_id self)) ts [] [] [] (track_percentiles self)"
    by (simp add: get_new_datapoint_def DataPoint_def)
  have "wf_kpis (add_samples ?self2 [] samples)"
    using assms(2) by (intro wf_add_samples) (simp_all add: wf_kpis_def)
  from merge_overall_ok[OF this, of "KPISet (track_percentiles self)" "Some (reader_id self)"]
  obtain overall' cur' where
    mo: "merge_overall (KPISet (track_percentiles self)) (add_samples ?self2 [] samples)
           (Some (reader_id self)) = (None, overall', cur')"
    by (elim exE conjE) (rule that)
  let ?dp = "DataPoint_dict (Some (reader_id self)) ts [] (dict_set cur' [] overall') []
               (track_percentiles self)"
  have ag: "aggregate_current ?self2 (get_new_datapoint ?self2 ts) samples = (None, ?dp)"
    using mo by (simp add: aggregate_current_def nd)
  have "calculate_datapoint self ts = (None, ?dp, ?self2)"
    using assms(1) ag by (simp add: calculate_datapoint_def Let_def)
  then show ?thesis by simp
qed

lemma map_of_dict_del: "map_of (dict_del d k) k' = (if k' = k then None else map_of d k')"
  by (induction d) (auto simp: dict_del_def)

lemma keys_dict_del: "fst ` set (dict_del d k) = fst ` set d - {k}"
  by (auto simp: dict_del_def)

lemma calculate_loop_ok:
  assumes "valid_levels (track_percentiles self)" and "distinct tss"
    and "set tss \<subseteq> fst ` set (buffer self)"
  shows "\<exists>dps self'. calculate_loop final_pass tss self acc = (None, acc @ dps, self')
     \<and> map dp_timestamp dps
         = (if final_pass then tss else takeWhile (\<lambda>t. t + buffer_len self \<le> last tss) tss)
     \<and> fst ` set (buffer self') = fst ` set (buffer self) - set (map dp_timestamp dps)
     \<and> (final_pass \<and> set tss = fst ` set (buffer self) \<longrightarrow> buffer self' = [])"
  using assms
proof (induction tss arbitrary: self acc)
  case Nil
  then show ?case by simp
next
  case (Cons ts tss)
  show ?case
  proof (cases "final_pass \<or> last (ts # tss) \<ge> ts + buffer_len self")
    case False
    then show ?thesis by simp
  next
    case True
    from Cons.prems(3) have "ts \<in> fst ` set (buffer self)" by simp
    then obtain samples where ms: "map_of (buffer self) ts = Some samples"
      by (metis map_of_eq_None_iff not_Some_eq)
    let ?self1 = "self\<lparr>min_timestamp := ts + 1, buffer := dict_del (buffer self) ts\<rparr>"
    from calculate_datapoint_ok[OF ms Cons.prems(1)] obtain dp where
      c: "calculate_datapoint self ts = (None, dp, ?self1)" and t: "dp_timestamp dp = ts"
      by (elim exE conjE) (rule that)
    have v1: "valid_levels (track_percentiles ?self1)" using Cons.prems(1) by simp
    have d1: "distinct tss" using Cons.prems(2) by simp
    have s1: "set tss \<subseteq> fst ` set (buffer ?self1)"
      using Cons.prems(2,3) by (auto simp: keys_dict_del)
    from Cons.IH[OF v1 d1 s1, of "acc @ [dp]"] obtain dps self' where
      l: "calculate_loop final_pass tss ?self1 (acc @ [dp]) = (None, (acc @ [dp]) @ dps, self')"
      and e: "map dp_timestamp dps
         = (if final_pass then tss
            else takeWhile (\<lambda>t. t + buffer_len ?self1 \<le> last tss) tss)"
      and k: "fst ` set (buffer self')
          = fst ` set (buffer ?self1) - set (map dp_timestamp dps)"
      and b: "final_pass \<and> set tss = fst ` set (buffer ?self1) \<longrightarrow> buffer self' = []"
      by (elim exE conjE) (rule that)
    have run: "calculate_loop final_pass (ts # tss) self acc = (None, acc @ (dp # dps), self')"
      using True c l by simp
    have em: "map dp_timestamp (dp # dps)
         = (if final_pass then ts # tss
            else takeWhile (\<lambda>t. t + buffer_len self \<le> last (ts # tss)) (ts # tss))"
    proof (cases final_pass)
      case True
      with e t show ?thesis by simp
    next
      case False
      with True have le: "ts + buffer_len self \<le> last (ts # tss)" by simp
      show ?thesis
      proof (cases "tss = []")
        case True
        with e t le False show ?thesis by simp
      next
        case ne: False
        with e t le False show ?thesis by simp
      qed
    qed
    have ks: "fst ` set (buffer self') = fst ` set (buffer self) - set (map dp_timestamp (dp # dps))"
      using k t by (auto simp: keys_dict_del)
    have bs: "final_pass \<and> set (ts # tss) = fst ` set (buffer self) \<longrightarrow> buffer self' = []"
    proof
      assume a: "final_pass \<and> set (ts # tss) = fst ` set (buffer self)"
      with Cons.prems(2) have "set tss = fst ` set (buffer ?self1)"
        by (auto simp: keys_dict_del)
      with a b show "buffer self' = []" by simp
    qed
    show ?thesis
      by (rule exI[of _ "dp # dps"], rule exI[of _ self']) (intro conjI run em ks bs)
  qed
qed

lemma process_readers_Row:
  "process_readers self (Row (t_stamp, label, s) # rest) =
     (if label \<in> set (ignored_labels self) then process_readers self rest
      else process_readers (put_sample self t_stamp (label, s)) rest)"
  by (cases s) (simp add: put_sample_def Let_def)

lemma map_of_buffer_append:
  "map_of (buffer_append buf t x) t' =
     (if t' = t then Some ((case map_of buf t of None \<Rightarrow> [] | Some xs \<Rightarrow> xs) @ [x])
      else map_of buf t')"
  by (cases "map_of buf t")
     (auto simp: buffer_append_def map_of_dict_set map_add_def split: option.splits)

lemma keys_buffer_append: "fst ` set (buffer_append buf t x) = insert t (fst ` set buf)"
proof (cases "map_of buf t")
  case None
  then show ?thesis by (auto simp: buffer_append_def)
next
  case (Some xs)
  then have "t \<in> fst ` set buf" by (metis map_of_eq_None_iff option.distinct(1))
  with Some show ?thesis by (auto simp: buffer_append_def keys_dict_set)
qed

lemma distinct_buffer_append:
  "distinct (map fst buf) \<Longrightarrow> distinct (map fst (buffer_append buf t x))"
proof (cases "map_of buf t")
  case None
  assume "distinct (map fst buf)"
  moreover from None have "t \<notin> fst ` set buf" by (simp add: map_of_eq_None_iff)
  ultimately show ?thesis using None by (auto simp: buffer_append_def)
next
  case (Some xs)
  assume "distinct (map fst buf)"
  with Some show ?thesis by (simp add: buffer_append_def distinct_dict_set)
qed

lemma put_sample_fields:
  "track_percentiles (put_sample self t x) = track_percentiles self"
  "buffer_len (put_sample self t x) = buffer_len self"
  "min_timestamp (put_sample self t x) = min_timestamp self"
  "ignored_labels (put_sample self t x) = ignored_labels self"
  "buffer (put_sample self t x)
     = buffer_append (buffer self) (if t < min_timestamp self then min_timestamp self else t) x"
  "log (put_sample self t x)
     = log self @ (if t < min_timestamp self then [Putting_sample t (min_timestamp self)] else [])"
  by (simp_all add: put_sample_def)

lemma reader_extends_refl: "reader_extends self self"
  unfolding reader_extends_def
proof (intro conjI allI impI)
  fix t xs assume "map_of (buffer self) t = Some xs"
  then have "map_of (buffer self) t = Some (xs @ [])" by simp
  then show "\<exists>ys. map_of (buffer self) t = Some (xs @ ys)" by (rule exI)
next
  have "log self = log self @ []" by simp
  then show "\<exists>entries. log self = log self @ entries" by (rule exI)
qed (rule refl | assumption)+

lemma reader_extends_trans:
  assumes "reader_extends a b" and "reader_extends b c"
  shows "reader_extends a c"
proof -
  note ab = assms(1)[unfolded reader_extends_def]
  note bc = assms(2)[unfolded reader_extends_def]
  note a1 = ab[THEN conjunct1]
  note a2 = ab[THEN conjunct2, THEN conjunct1]
  note a3 = ab[THEN conjunct2, THEN conjunct2, THEN conjunct1]
  note a4 = ab[THEN conjunct2, THEN conjunct2, THEN conjunct2, THEN conjunct1]
  note a5 = ab[THEN conjunct2, THEN conjunct2, THEN conjunct2, THEN conjunct2, THEN conjunct1]
  note a6 = ab[THEN conjunct2, THEN conjunct2, THEN conjunct2, THEN conjunct2, THEN conjunct2,
      THEN conjunct1]
  note a7 = ab[THEN conjunct2, THEN conjunct2, THEN conjunct2, THEN conjunct2, THEN conjunct2,
      THEN conjunct2]
  note b1 = bc[THEN conjunct1]
  note b2 = bc[THEN conjunct2, THEN conjunct1]
  note b3 = bc[THEN conjunct2, THEN conjunct2, THEN conjunct1]
  note b4 = bc[THEN conjunct2, THEN conjunct2, THEN conjunct2, THEN conjunct1]
  note b5 = bc[THEN conjunct2, THEN conjunct2, THEN conjunct2, THEN conjunct2, THEN conjunct1]
  note b6 = bc[THEN conjunct2, THEN conjunct2, THEN conjunct2, THEN conjunct2, THEN conjunct2,
      THEN conjunct1]
  note b7 = bc[THEN conjunct2, THEN conjunct2, THEN conjunct2, THEN conjunct2, THEN conjunct2,
      THEN conjunct2]
  have g1: "track_percentiles c = track_percentiles a" using a1 b1 by simp
  have g2: "buffer_len c = buffer_len a" using a2 b2 by simp
  have g3: "min_timestamp c = min_timestamp a" using a3 b3 by simp
  have g4: "distinct (map fst (buffer a)) \<longrightarrow> distinct (map fst (buffer c))"
    using a4 b4 by simp
  have g5: "\<forall>t xs. map_of (buffer a) t = Some xs
             \<longrightarrow> (\<exists>ys. map_of (buffer c) t = Some (xs @ ys))"
  proof (intro allI impI)
    fix t xs assume "map_of (buffer a) t = Some xs"
    with a5 obtain ys where "map_of (buffer b) t = Some (xs @ ys)" by blast
    with b5 obtain zs where "map_of (buffer c) t = Some ((xs @ ys) @ zs)" by blast
    then have "map_of (buffer c) t = Some (xs @ (ys @ zs))" by simp
    then show "\<exists>ys. map_of (buffer c) t = Some (xs @ ys)" by (rule exI)
  qed
  have g6: "\<forall>t. t < min_timestamp a \<longrightarrow> map_of (buffer c) t = map_of (buffer a) t"
    using a6 b6 a3 by simp
  from a7 obtain e1 where e1: "log b = log a @ e1" by (elim exE)
  from b7 obtain e2 where e2: "log c = log b @ e2" by (elim exE)
  from e1 e2 have "log c = log a @ (e1 @ e2)" by simp
  then have g7: "\<exists>entries. log c = log a @ entries" by (rule exI)
  show ?thesis unfolding reader_extends_def by (intro conjI g1 g2 g3 g4 g5 g6 g7)
qed

lemma reader_extends_put_sample: "reader_extends self (put_sample self t_stamp x)"
proof -
  let ?t1 = "if t_stamp < min_timestamp self then min_timestamp self else t_stamp"
  have g4: "distinct (map fst (buffer self))
      \<longrightarrow> distinct (map fst (buffer (put_sample self t_stamp x)))"
    by (simp add: put_sample_fields distinct_buffer_append)
  have g5: "\<forall>t xs. map_of (buffer self) t = Some xs
             \<longrightarrow> (\<exists>ys. map_of (buffer (put_sample self t_stamp x)) t = Some (xs @ ys))"
  proof (intro allI impI)
    fix t xs assume m: "map_of (buffer self) t = Some xs"
    show "\<exists>ys. map_of (buffer (put_sample self t_stamp x)) t = Some (xs @ ys)"
    proof (cases "t = ?t1")
      case True
      with m have "map_of (buffer (put_sample self t_stamp x)) t = Some (xs @ [x])"
        by (simp add: put_sample_fields map_of_buffer_append)
      then show ?thesis by (rule exI)
    next
      case False
      with m have "map_of (buffer (put_sample self t_stamp x)) t = Some (xs @ [])"
        by (simp add: put_sample_fields map_of_buffer_append)
      then show ?thesis by (rule exI)
    qed
  qed
  have g6: "\<forall>t. t < min_timestamp self
      \<longrightarrow> map_of (buffer (put_sample self t_stamp x)) t = map_of (buffer self) t"
    by (simp add: put_sample_fields map_of_buffer_append)
  have "log (put_sample self t_stamp x)
      = log self @ (if t_stamp < min_timestamp self
                    then [Putting_sample t_stamp (min_timestamp self)] else [])"
    by (rule put_sample_fields)
  then have g7: "\<exists>entries. log (put_sample self t_stamp x) = log self @ entries"
    by (rule exI)
  show ?thesis
    unfolding reader_extends_def
    by (intro conjI put_sample_fields(1,2,3) g4 g5 g6 g7)
qed

lemma process_readers_keeps:
  "process_readers self results = (e, self') \<Longrightarrow> reader_extends self self'"
proof (induction results arbitrary: self)
  case Nil
  then have "self' = self" by simp
  then show ?case by (simp only: reader_extends_refl)
next
  case (Cons r results)
  show ?case
  proof (cases r)
    case No_data
    with Cons.prems have "self' = self" by simp
    then show ?thesis by (simp only: reader_extends_refl)
  next
    case (Unsupported x)
    with Cons.prems have "self' = self" by simp
    then show ?thesis by (simp only: reader_extends_refl)
  next
    case (Row row)
    obtain t_stamp label s where row: "row = (t_stamp, label, s)" by (cases row)
    show ?thesis
    proof (cases "label \<in> set (ignored_labels self)")
      case True
      with Cons.prems Row row have "process_readers self results = (e, self')"
        by (simp only: process_readers_Row if_True)
      then show ?thesis by (rule Cons.IH)
    next
      case False
      with Cons.prems Row row
      have "process_readers (put_sample self t_stamp (label, s)) results = (e, self')"
        by (simp only: process_readers_Row if_False)
      then have "reader_extends (put_sample self t_stamp (label, s)) self'" by (rule Cons.IH)
      with reader_extends_put_sample show ?thesis by (rule reader_extends_trans)
    qed
  qed
qed

lemma takeWhile_filter_sorted:
  "sorted xs \<Longrightarrow> takeWhile (\<lambda>t. t + (L::int) \<le> M) xs = filter (\<lambda>t. t + L \<le> M) xs"
proof (induction xs)
  case Nil
  then show ?case by simp
next
  case (Cons x xs)
  show ?case
  proof (cases "x + L \<le> M")
    case True
    with Cons show ?thesis by simp
  next
    case False
    with Cons.prems have "\<forall>y \<in> set xs. \<not> y + L \<le> M" by auto
    then have "filter (\<lambda>t. t + L \<le> M) xs = []" by (simp add: filter_empty_conv)
    with False show ?thesis by simp
  qed
qed

lemma sorted_le_last: "sorted xs \<Longrightarrow> y \<in> set xs \<Longrightarrow> y \<le> last (xs::int list)"
  by (induction xs) auto

lemma sorted_hd_le: "sorted xs \<Longrightarrow> y \<in> set xs \<Longrightarrow> hd (xs::int list) \<le> y"
  by (cases xs) auto

lemma last_sort_Max: "xs \<noteq> [] \<Longrightarrow> last (sort xs) = Max (set (xs::int list))"
proof -
  assume ne: "xs \<noteq> []"
  then have ne': "sort xs \<noteq> []" by (metis length_sort length_0_conv)
  have "Max (set (sort xs)) = last (sort xs)"
  proof (rule Max_eqI)
    show "finite (set (sort xs))" by simp
    show "y \<le> last (sort xs)" if "y \<in> set (sort xs)" for y
      using that by (intro sorted_le_last) simp_all
    show "last (sort xs) \<in> set (sort xs)" using ne' by (rule last_in_set)
  qed
  then show ?thesis by simp
qed

lemma hd_sort_Min: "xs \<noteq> [] \<Longrightarrow> hd (sort xs) = Min (set (xs::int list))"
proof -
  assume ne: "xs \<noteq> []"
  then have ne': "sort xs \<noteq> []" by (metis length_sort length_0_conv)
  have "Min (set (sort xs)) = hd (sort xs)"
  proof (rule Min_eqI)
    show "finite (set (sort xs))" by simp
    show "hd (sort xs) \<le> y" if "y \<in> set (sort xs)" for y
      using that by (intro sorted_hd_le) simp_all
    show "hd (sort xs) \<in> set (sort xs)" using ne' by (rule hd_in_set)
  qed
  then show ?thesis by simp
qed

lemma calculate_datapoint_watermark:
  "calculate_datapoint self ts = (e, datapoint, self1) \<Longrightarrow> min_timestamp self1 = ts + 1"
  by (auto simp: calculate_datapoint_def Let_def split: option.splits prod.splits)

text \<open>
  C7, as stated: every sample older than \<open>min_timestamp\<close> would be recorded. A sample
  with the timestamp 5 and an ignored label, read when \<open>min_timestamp\<close> is 8, leaves the
  reader as it was: the sample is in no bucket and no warning is logged.
\<close>

theorem sample_with_ignored_label_dropped:
  "5 < min_timestamp late_reader
   \<and> process_readers late_reader [sample_row 5 ''skip''] = (None, late_reader)
   \<and> buffer late_reader = [] \<and> log late_reader = []"
  by (simp add: late_reader_def sample_row_def ResultsReader_def)

text \<open>
  C7, amended: a sample whose label is not ignored and whose timestamp is below
  \<open>min_timestamp\<close> is appended to the bucket of \<open>min_timestamp\<close>, where it stays
  whatever is read after it, and the warning is logged; the bucket of its own timestamp is
  left as it was, and \<open>min_timestamp\<close> does not change while reading. Once the bucket of
  a timestamp \<open>ts\<close> is taken out for emission, \<open>min_timestamp\<close> is \<open>ts + 1\<close>.
\<close>

theorem late_sample_clamped:
  assumes "label \<notin> set (ignored_labels self)" and "t_stamp < min_timestamp self"
    and "process_readers self (Row (t_stamp, label, s) # results) = (e, self')"
  shows "(\<exists>xs ys. map_of (buffer self') (min_timestamp self) = Some (xs @ [(label, s)] @ ys))
     \<and> Putting_sample t_stamp (min_timestamp self) \<in> set (log self')
     \<and> map_of (buffer self') t_stamp = map_of (buffer self) t_stamp
     \<and> min_timestamp self' = min_timestamp self
     \<and> min_timestamp (snd (snd (calculate_datapoint self' ts))) = ts + 1"
proof -
  let ?self1 = "put_sample self t_stamp (label, s)"
  from assms have pr: "process_readers ?self1 results = (e, self')"
    by (simp only: process_readers_Row if_False)
  note ex = process_readers_keeps[OF pr, unfolded reader_extends_def put_sample_fields]
  note e3 = ex[THEN conjunct2, THEN conjunct2, THEN conjunct1]
  note e5 = ex[THEN conjunct2, THEN conjunct2, THEN conjunct2, THEN conjunct2, THEN conjunct1]
  note e6 = ex[THEN conjunct2, THEN conjunct2, THEN conjunct2, THEN conjunct2, THEN conjunct2,
      THEN conjunct1]
  note e7 = ex[THEN conjunct2, THEN conjunct2, THEN conjunct2, THEN conjunct2, THEN conjunct2,
      THEN conjunct2]
  let ?old = "case map_of (buffer self) (min_timestamp self) of None \<Rightarrow> [] | Some xs \<Rightarrow> xs"
  have ba: "map_of (buffer_append (buffer self)
                     (if t_stamp < min_timestamp self then min_timestamp self else t_stamp)
                     (label, s)) (min_timestamp self)
      = Some (?old @ [(label, s)])"
    using assms(2) by (simp add: map_of_buffer_append)
  from e5[rule_format, OF ba] obtain ys where
    "map_of (buffer self') (min_timestamp self) = Some ((?old @ [(label, s)]) @ ys)"
    by (elim exE)
  then have "map_of (buffer self') (min_timestamp self) = Some (?old @ [(label, s)] @ ys)"
    by simp
  then have g1: "\<exists>xs ys. map_of (buffer self') (min_timestamp self)
      = Some (xs @ [(label, s)] @ ys)" by blast
  from e7 assms(2) have g2: "Putting_sample t_stamp (min_timestamp self) \<in> set (log self')"
    by auto
  from e6 assms(2) have g3: "map_of (buffer self') t_stamp = map_of (buffer self) t_stamp"
    by (simp add: map_of_buffer_append)
  have g5: "min_timestamp (snd (snd (calculate_datapoint self' ts))) = ts + 1"
    using calculate_datapoint_watermark[of self' ts] by (cases "calculate_datapoint self' ts") simp
  from g1 g2 g3 e3 g5 show ?thesis by (intro conjI)
qed

theorem late_sample_clamped_witness:
  "''home'' \<notin> set (ignored_labels late_reader) \<and> 5 < min_timestamp late_reader
   \<and> min_timestamp late_reader = 8
   \<and> process_readers late_reader [sample_row 5 ''home'']
       = (None, late_reader\<lparr>log := [Putting_sample 5 8],
                              buffer := [(8, [buffered_sample ''home''])]\<rparr>)
   \<and> (\<exists>xs ys. map_of (buffer (late_reader\<lparr>log := [Putting_sample 5 8],
                                buffer := [(8, [buffered_sample ''home''])]\<rparr>)) 8
                  = Some (xs @ [buffered_sample ''home''] @ ys))
   \<and> map_of (buffer (late_reader\<lparr>log := [Putting_sample 5 8],
                        buffer := [(8, [buffered_sample ''home''])]\<rparr>)) 5 = None"
proof -
  let ?r = "late_reader\<lparr>log := [Putting_sample 5 8],
                         buffer := [(8, [buffered_sample ''home''])]\<rparr>"
  have h1: "''home'' \<notin> set (ignored_labels late_reader)"
    and h2: "5 < min_timestamp late_reader" and m: "min_timestamp late_reader = 8"
    and b: "map_of (buffer late_reader) 5 = None"
    by (simp_all add: late_reader_def ResultsReader_def)
  have run: "process_readers late_reader [sample_row 5 ''home''] = (None, ?r)"
    by (simp add: late_reader_def sample_row_def ResultsReader_def buffered_sample_def
        buffer_append_def)
  have run': "process_readers late_reader
      (Row (5, ''home'', 1, 1 / 2, None, 1 / 4, Some ''200'', None, []) # []) = (None, ?r)"
    using run by (simp add: sample_row_def)
  note t = late_sample_clamped[OF h1 h2 run', of 0]
  from t[THEN conjunct1] m
  have g: "\<exists>xs ys. map_of (buffer ?r) 8 = Some (xs @ [buffered_sample ''home''] @ ys)"
    by (simp add: buffered_sample_def)
  have g3: "map_of (buffer ?r) 5 = None" by simp
  from h1 h2 m run g g3 show ?thesis by (intro conjI)
qed

text \<open>
  C6. After the results of a pull are in the buffer, which is not empty, a pull that is
  not final yields the buckets whose timestamp plus \<open>buffer_len\<close> is at most the largest
  buffered timestamp, oldest first; so the bucket of the oldest timestamp is yielded if
  and only if the largest timestamp is at least the oldest plus \<open>buffer_len\<close>. A final
  pull yields every bucket and leaves the buffer empty. The levels are within the range
  of the assertion of \<open>__perc_and_stdev\<close> and the results hold nothing unsupported, so
  no exception arises. With \<open>buffer_len\<close> 2 and samples at 10, 10 and 11, nothing is
  yielded; once a sample at 12 is there, bucket 10 is; once a sample at 13 is there,
  buckets 10 and 11 are; a final pull yields 10 and 11 at once.
\<close>

theorem bucket_emission:
  assumes "valid_levels (track_percentiles self)" and "distinct (map fst (buffer self))"
    and "process_readers self results = (None, self1)" and "buffer self1 \<noteq> []"
  shows "(\<exists>dps self2. calculate_datapoints self False results = (None, dps, self2)
       \<and> map dp_timestamp dps
           = filter (\<lambda>t. t + buffer_len self \<le> Max (fst ` set (buffer self1)))
               (sort (map fst (buffer self1)))
       \<and> (Min (fst ` set (buffer self1)) \<in> set (map dp_timestamp dps)
            \<longleftrightarrow> Min (fst ` set (buffer self1)) + buffer_len self
                  \<le> Max (fst ` set (buffer self1)))
       \<and> fst ` set (buffer self2) = fst ` set (buffer self1) - set (map dp_timestamp dps))
     \<and> (\<exists>dps self2. calculate_datapoints self True results = (None, dps, self2)
       \<and> map dp_timestamp dps = sort (map fst (buffer self1))
       \<and> buffer self2 = [])"
proof -
  note ex = process_readers_keeps[OF assms(3), unfolded reader_extends_def]
  note e1 = ex[THEN conjunct1]
  note e2 = ex[THEN conjunct2, THEN conjunct1]
  note e4 = ex[THEN conjunct2, THEN conjunct2, THEN conjunct2, THEN conjunct1]
  let ?keys = "map fst (buffer self1)"
  let ?tss = "sort ?keys"
  have ne: "?keys \<noteq> []" using assms(4) by simp
  have v1: "valid_levels (track_percentiles self1)" using e1 assms(1) by simp
  have d1: "distinct ?tss" using e4 assms(2) by simp
  have s1: "set ?tss \<subseteq> fst ` set (buffer self1)" by simp
  have s2: "set ?tss = fst ` set (buffer self1)" by simp
  have cd: "calculate_datapoints self fp results = calculate_loop fp ?tss self1 []" for fp
    using assms(3,4) by (simp add: calculate_datapoints_def)
  have la: "last ?tss = Max (fst ` set (buffer self1))"
    using last_sort_Max[OF ne] by simp
  have mn: "Min (fst ` set (buffer self1)) \<in> set ?tss"
  proof -
    have "Min (set ?keys) \<in> set ?keys" using ne by (intro Min_in) simp_all
    then show ?thesis by simp
  qed
  from calculate_loop_ok[OF v1 d1 s1, of False "[]"] obtain dps self2 where
    l: "calculate_loop False ?tss self1 [] = (None, [] @ dps, self2)"
    and em: "map dp_timestamp dps
         = (if False then ?tss
            else takeWhile (\<lambda>t. t + buffer_len self1 \<le> last ?tss) ?tss)"
    and ks: "fst ` set (buffer self2) = fst ` set (buffer self1) - set (map dp_timestamp dps)"
    by (elim exE conjE) (rule that)
  have em': "map dp_timestamp dps
      = filter (\<lambda>t. t + buffer_len self \<le> Max (fst ` set (buffer self1))) ?tss"
    using em e2 la takeWhile_filter_sorted[of ?tss "buffer_len self" "last ?tss"]
    by simp
  have iff: "Min (fst ` set (buffer self1)) \<in> set (map dp_timestamp dps)
            \<longleftrightarrow> Min (fst ` set (buffer self1)) + buffer_len self
                  \<le> Max (fst ` set (buffer self1))"
    unfolding em' using mn by simp
  have r1: "calculate_datapoints self False results = (None, dps, self2)"
    using l by (simp add: cd)
  from calculate_loop_ok[OF v1 d1 s1, of True "[]"] obtain dpsf selff where
    lf: "calculate_loop True ?tss self1 [] = (None, [] @ dpsf, selff)"
    and emf: "map dp_timestamp dpsf
         = (if True then ?tss
            else takeWhile (\<lambda>t. t + buffer_len self1 \<le> last ?tss) ?tss)"
    and bf: "True \<and> set ?tss = fst ` set (buffer self1) \<longrightarrow> buffer selff = []"
    by (elim exE conjE) (rule that)
  have r2: "calculate_datapoints self True results = (None, dpsf, selff)"
    using lf by (simp add: cd)
  have emf': "map dp_timestamp dpsf = ?tss" using emf by simp
  have bf': "buffer selff = []" using bf s2 by blast
  have p1: "\<exists>dps self2. calculate_datapoints self False results = (None, dps, self2)
       \<and> map dp_timestamp dps
           = filter (\<lambda>t. t + buffer_len self \<le> Max (fst ` set (buffer self1)))
               (sort (map fst (buffer self1)))
       \<and> (Min (fst ` set (buffer self1)) \<in> set (map dp_timestamp dps)
            \<longleftrightarrow> Min (fst ` set (buffer self1)) + buffer_len self
                  \<le> Max (fst ` set (buffer self1)))
       \<and> fst ` set (buffer self2) = fst ` set (buffer self1) - set (map dp_timestamp dps)"
    by (rule exI[of _ dps], rule exI[of _ self2]) (intro conjI r1 em' iff ks)
  have p2: "\<exists>dps self2. calculate_datapoints self True results = (None, dps, self2)
       \<and> map dp_timestamp dps = sort (map fst (buffer self1))
       \<and> buffer self2 = []"
    by (rule exI[of _ dpsf], rule exI[of _ selff]) (intro conjI r2 emf' bf')
  from p1 p2 show ?thesis by (rule conjI)
qed


theorem bucket_emission_witness:
  "valid_levels (track_percentiles (ResultsReader [] 1))
   \<and> distinct (map fst (buffer (ResultsReader [] 1)))
   \<and> buffer_len (ResultsReader [] 1) = 2
   \<and> (\<exists>dps self2.
         calculate_datapoints (ResultsReader [] 1) False
           [sample_row 10 ''home'', sample_row 10 ''home'', sample_row 11 ''home'']
           = (None, dps, self2)
         \<and> map dp_timestamp dps = [])
   \<and> (\<exists>dps self2.
         calculate_datapoints (ResultsReader [] 1) False
           [sample_row 10 ''home'', sample_row 10 ''home'', sample_row 11 ''home'',
            sample_row 12 ''home'']
           = (None, dps, self2)
         \<and> map dp_timestamp dps = [10])
   \<and> (\<exists>dps self2.
         calculate_datapoints (ResultsReader [] 1) False
           [sample_row 10 ''home'', sample_row 10 ''home'', sample_row 11 ''home'',
            sample_row 13 ''home'']
           = (None, dps, self2)
         \<and> map dp_timestamp dps = [10, 11])
   \<and> (\<exists>dps self2.
         calculate_datapoints (ResultsReader [] 1) True
           [sample_row 10 ''home'', sample_row 10 ''home'', sample_row 11 ''home'']
           = (None, dps, self2)
         \<and> map dp_timestamp dps = [10, 11] \<and> buffer self2 = [])"
proof -
  let ?r = "ResultsReader [] 1"
  let ?x = "buffered_sample ''home''"
  let ?A = "[sample_row 10 ''home'', sample_row 10 ''home'', sample_row 11 ''home'']"
  let ?B = "[sample_row 10 ''home'', sample_row 10 ''home'', sample_row 11 ''home'',
             sample_row 12 ''home'']"
  let ?C = "[sample_row 10 ''home'', sample_row 10 ''home'', sample_row 11 ''home'',
             sample_row 13 ''home'']"
  let ?bA = "[(10, [?x, ?x]), (11, [?x])]"
  let ?bB = "[(10, [?x, ?x]), (11, [?x]), (12, [?x])]"
  let ?bC = "[(10, [?x, ?x]), (11, [?x]), (13, [?x])]"
  have h1: "valid_levels (track_percentiles ?r)"
    and h2: "distinct (map fst (buffer ?r))" and h3: "buffer_len ?r = 2"
    by (simp_all add: ResultsReader_def valid_levels_def)
  have pA: "process_readers ?r ?A = (None, ?r\<lparr>buffer := ?bA\<rparr>)"
    by (simp add: ResultsReader_def sample_row_def buffered_sample_def buffer_append_def)
  have pB: "process_readers ?r ?B = (None, ?r\<lparr>buffer := ?bB\<rparr>)"
    by (simp add: ResultsReader_def sample_row_def buffered_sample_def buffer_append_def)
  have pC: "process_readers ?r ?C = (None, ?r\<lparr>buffer := ?bC\<rparr>)"
    by (simp add: ResultsReader_def sample_row_def buffered_sample_def buffer_append_def)
  have nA: "buffer (?r\<lparr>buffer := ?bA\<rparr>) \<noteq> []" by simp
  have nB: "buffer (?r\<lparr>buffer := ?bB\<rparr>) \<noteq> []" by simp
  have nC: "buffer (?r\<lparr>buffer := ?bC\<rparr>) \<noteq> []" by simp
  from bucket_emission[OF h1 h2 pA nA, THEN conjunct1] obtain dA sA where
    rA: "calculate_datapoints ?r False ?A = (None, dA, sA)"
    and eA: "map dp_timestamp dA
       = filter (\<lambda>t. t + buffer_len ?r \<le> Max (fst ` set (buffer (?r\<lparr>buffer := ?bA\<rparr>))))
           (sort (map fst (buffer (?r\<lparr>buffer := ?bA\<rparr>))))"
    by (elim exE conjE) (rule that)
  from eA have eA': "map dp_timestamp dA = []" by (simp add: ResultsReader_def)
  from bucket_emission[OF h1 h2 pB nB, THEN conjunct1] obtain dB sB where
    rB: "calculate_datapoints ?r False ?B = (None, dB, sB)"
    and eB: "map dp_timestamp dB
       = filter (\<lambda>t. t + buffer_len ?r \<le> Max (fst ` set (buffer (?r\<lparr>buffer := ?bB\<rparr>))))
           (sort (map fst (buffer (?r\<lparr>buffer := ?bB\<rparr>))))"
    by (elim exE conjE) (rule that)
  from eB have eB': "map dp_timestamp dB = [10]" by (simp add: ResultsReader_def)
  from bucket_emission[OF h1 h2 pC nC, THEN conjunct1] obtain dC sC where
    rC: "calculate_datapoints ?r False ?C = (None, dC, sC)"
    and eC: "map dp_timestamp dC
       = filter (\<lambda>t. t + buffer_len ?r \<le> Max (fst ` set (buffer (?r\<lparr>buffer := ?bC\<rparr>))))
           (sort (map fst (buffer (?r\<lparr>buffer := ?bC\<rparr>))))"
    by (elim exE conjE) (rule that)
  from eC have eC': "map dp_timestamp dC = [10, 11]" by (simp add: ResultsReader_def)
  from bucket_emission[OF h1 h2 pA nA, THEN conjunct2] obtain dF sF where
    rF: "calculate_datapoints ?r True ?A = (None, dF, sF)"
    and eF: "map dp_timestamp dF = sort (map fst (buffer (?r\<lparr>buffer := ?bA\<rparr>)))"
    and bF: "buffer sF = []"
    by (elim exE conjE) (rule that)
  from eF have eF': "map dp_timestamp dF = [10, 11]" by simp
  have gA: "\<exists>dps self2. calculate_datapoints ?r False ?A = (None, dps, self2)
         \<and> map dp_timestamp dps = []"
    by (rule exI[of _ dA], rule exI[of _ sA]) (intro conjI rA eA')
  have gB: "\<exists>dps self2. calculate_datapoints ?r False ?B = (None, dps, self2)
         \<and> map dp_timestamp dps = [10]"
    by (rule exI[of _ dB], rule exI[of _ sB]) (intro conjI rB eB')
  have gC: "\<exists>dps self2. calculate_datapoints ?r False ?C = (None, dps, self2)
         \<and> map dp_timestamp dps = [10, 11]"
    by (rule exI[of _ dC], rule exI[of _ sC]) (intro conjI rC eC')
  have gF: "\<exists>dps self2. calculate_datapoints ?r True ?A = (None, dps, self2)
         \<and> map dp_timestamp dps = [10, 11] \<and> buffer self2 = []"
    by (rule exI[of _ dF], rule exI[of _ sF]) (intro conjI rF eF' bF)
  from h1 h2 h3 gA gB gC gF show ?thesis by (intro conjI)
qed

end
